theory Spec2Isabelle
  imports Main "HOL-Library.Sublist"
begin

section \<open>Text primitives of the host language\<close>

text \<open>
  The pipeline of \<^verbatim>\<open>llm_sql_generator1.py\<close> works on Python \<^verbatim>\<open>str\<close> values. They are
  modelled as \<^typ>\<open>string\<close>, one \<^typ>\<open>char\<close> per code point, and the model is that of
  ASCII text: case mapping, white space, word characters and digits are Python's on the
  code points 0 to 127. A character above 127 has no case and is neither white space, a
  word character nor a digit here.
\<close>

definition code :: "char \<Rightarrow> nat" where
  "code c = of_char c"

definition is_space :: "char \<Rightarrow> bool" where
  \<comment> \<open>\<^verbatim>\<open>str.isspace\<close>, the set removed by \<^verbatim>\<open>str.strip()\<close> and matched by \<^verbatim>\<open>\s\<close>:
      TAB, LF, VT, FF, CR, FS, GS, RS, US and the space.\<close>
  "is_space c = ((9 \<le> code c \<and> code c \<le> 13) \<or> (28 \<le> code c \<and> code c \<le> 32))"

definition is_lower :: "char \<Rightarrow> bool" where
  "is_lower c = (97 \<le> code c \<and> code c \<le> 122)"

definition is_upper :: "char \<Rightarrow> bool" where
  "is_upper c = (65 \<le> code c \<and> code c \<le> 90)"

definition is_digit :: "char \<Rightarrow> bool" where
  \<comment> \<open>\<^verbatim>\<open>\d\<close>\<close>
  "is_digit c = (48 \<le> code c \<and> code c \<le> 57)"

definition is_word :: "char \<Rightarrow> bool" where
  \<comment> \<open>\<^verbatim>\<open>\w\<close>: letters, digits and the underscore\<close>
  "is_word c = (is_lower c \<or> is_upper c \<or> is_digit c \<or> code c = 95)"

definition upper_char :: "char \<Rightarrow> char" where
  "upper_char c = (if is_lower c then char_of (code c - 32) else c)"

definition lower_char :: "char \<Rightarrow> char" where
  "lower_char c = (if is_upper c then char_of (code c + 32) else c)"

definition upper :: "string \<Rightarrow> string" where
  \<comment> \<open>\<^verbatim>\<open>str.upper\<close>\<close>
  "upper s = map upper_char s"

definition lower :: "string \<Rightarrow> string" where
  \<comment> \<open>\<^verbatim>\<open>str.lower\<close>\<close>
  "lower s = map lower_char s"

definition lstrip :: "string \<Rightarrow> string" where
  "lstrip s = dropWhile is_space s"

definition rstrip :: "string \<Rightarrow> string" where
  "rstrip s = rev (dropWhile is_space (rev s))"

definition strip :: "string \<Rightarrow> string" where
  \<comment> \<open>\<^verbatim>\<open>str.strip()\<close>\<close>
  "strip s = rstrip (lstrip s)"

definition rstrip_chars :: "string \<Rightarrow> string \<Rightarrow> string" where
  \<comment> \<open>\<^verbatim>\<open>s.rstrip(chars)\<close>: every trailing character that is in \<open>chars\<close> goes\<close>
  "rstrip_chars chars s = rev (dropWhile (\<lambda>c. c \<in> set chars) (rev s))"

definition startswith :: "string \<Rightarrow> string \<Rightarrow> bool" where
  \<comment> \<open>\<^verbatim>\<open>s.startswith(p)\<close>\<close>
  "startswith s p = prefix p s"

definition endswith :: "string \<Rightarrow> string \<Rightarrow> bool" where
  \<comment> \<open>\<^verbatim>\<open>s.endswith(p)\<close>\<close>
  "endswith s p = suffix p s"

fun contains :: "string \<Rightarrow> string \<Rightarrow> bool" where
  \<comment> \<open>\<^verbatim>\<open>sub in s\<close>: the substring test, scanning the start positions from the left\<close>
  "contains sub [] = (sub = [])"
| "contains sub (c # cs) = (prefix sub (c # cs) \<or> contains sub cs)"

definition any_in :: "string list \<Rightarrow> string \<Rightarrow> bool" where
  \<comment> \<open>\<^verbatim>\<open>any(x in s for x in xs)\<close>\<close>
  "any_in xs s = list_ex (\<lambda>x. contains x s) xs"

section \<open>Safety validator\<close>

definition forbidden :: "string list" where
  "forbidden = [''UPDATE'', ''DELETE'', ''INSERT'', ''DROP'', ''ALTER'', ''TRUNCATE'', ''--'']"

definition valid_sql :: "string \<Rightarrow> bool" where
  "valid_sql sql =
     (if sql = [] then False
      else let s = strip (upper sql) in
        if \<not> startswith s ''SELECT'' then False
        else if any_in forbidden s then False
        else True)"


section \<open>Regular expressions\<close>

text \<open>
  Each pattern of the source is a matcher: a function that tries the pattern at the start
  of the text it is given. \<^verbatim>\<open>re.search\<close> tries the matcher at every start position from
  the left and keeps the first success; \<^verbatim>\<open>re.sub\<close> scans the same way, copies the
  characters at which no match starts, writes the replacement for each match and goes on
  behind it. With \<^verbatim>\<open>re.IGNORECASE\<close> a literal matches a text of the same length that
  is equal to it after lower-casing.
\<close>

definition starts_ci :: "string \<Rightarrow> string \<Rightarrow> bool" where
  "starts_ci lit s = (length lit \<le> length s \<and> lower (take (length lit) s) = lower lit)"

fun re_search :: "(string \<Rightarrow> 'a option) \<Rightarrow> string \<Rightarrow> 'a option" where
  "re_search m [] = m []"
| "re_search m (c # cs) = (case m (c # cs) of Some r \<Rightarrow> Some r | None \<Rightarrow> re_search m cs)"

fun re_sub :: "(string \<Rightarrow> nat option) \<Rightarrow> string \<Rightarrow> string \<Rightarrow> string" where
  \<comment> \<open>The matcher returns the length of the match, which is at least 1 for every
      pattern substituted in this program.\<close>
  "re_sub m repl [] = []"
| "re_sub m repl (c # cs) =
     (case m (c # cs) of
        None \<Rightarrow> c # re_sub m repl cs
      | Some n \<Rightarrow> repl @ re_sub m repl (drop (n - 1) cs))"

definition match_fence :: "string \<Rightarrow> nat option" where
  \<comment> \<open>\<^verbatim>\<open>```(sql)?\<close> with IGNORECASE: three backquotes, then \<^verbatim>\<open>sql\<close> if it is there\<close>
  "match_fence s =
     (if prefix ''```'' s
      then (if starts_ci ''sql'' (drop 3 s) then Some 6 else Some 3)
      else None)"

definition match_select_semi :: "string \<Rightarrow> string option" where
  \<comment> \<open>\<^verbatim>\<open>(SELECT[\s\S]+?;)\<close> with IGNORECASE: the lazy \<^verbatim>\<open>[\s\S]+?\<close> takes one character
      of any kind, then as few more as it can up to a semicolon\<close>
  "match_select_semi s =
     (if starts_ci ''SELECT'' s
      then (case drop 6 s of
              [] \<Rightarrow> None
            | c # r \<Rightarrow>
                if CHR '';'' \<in> set r
                then Some (take 6 s @ c # takeWhile (\<lambda>x. x \<noteq> CHR '';'') r @ '';'')
                else None)
      else None)"

definition match_select_rest :: "string \<Rightarrow> string option" where
  \<comment> \<open>\<^verbatim>\<open>(SELECT[\s\S]+)\<close> with IGNORECASE: greedy, at least one character, to the end\<close>
  "match_select_rest s = (if starts_ci ''SELECT'' s \<and> drop 6 s \<noteq> [] then Some s else None)"

definition match_kw_ident :: "string \<Rightarrow> string \<Rightarrow> nat option" where
  \<comment> \<open>\<^verbatim>\<open>KW\s+\w+\<close> with IGNORECASE. Both repetitions are greedy; no white space is a
      word character, so giving back white space never helps and the longest runs are
      the only candidates.\<close>
  "match_kw_ident kw s =
     (if starts_ci kw s
      then (let r = drop (length kw) s;
                sp = takeWhile is_space r;
                w = takeWhile is_word (dropWhile is_space r)
            in if sp \<noteq> [] \<and> w \<noteq> [] then Some (length kw + length sp + length w) else None)
      else None)"

definition is_quote :: "char \<Rightarrow> bool" where
  \<comment> \<open>the class \<^verbatim>\<open>['\"]\<close>\<close>
  "is_quote c = (c = CHR 0x27 \<or> c = CHR 0x22)"

definition match_quoted :: "string \<Rightarrow> string \<Rightarrow> nat option" where
  \<comment> \<open>\<^verbatim>\<open>['\"]k['\"]\<close> with IGNORECASE, for a key \<open>k\<close> of letters and spaces\<close>
  "match_quoted k s =
     (case s of
        [] \<Rightarrow> None
      | q # r \<Rightarrow>
          if is_quote q \<and> starts_ci k r
             \<and> (case drop (length k) r of [] \<Rightarrow> False | q' # _ \<Rightarrow> is_quote q')
          then Some (length k + 2)
          else None)"

definition match_inc :: "string \<Rightarrow> string option" where
  \<comment> \<open>\<^verbatim>\<open>inc[\-\s]?(\d+)\<close>, case-sensitive; the result is group 1. The optional
      separator is tried present first, then absent.\<close>
  "match_inc s =
     (if prefix ''inc'' s
      then (let r = drop 3 s;
                with_sep = (case r of
                              [] \<Rightarrow> []
                            | c # r' \<Rightarrow> if c = CHR ''-'' \<or> is_space c
                                        then takeWhile is_digit r' else []);
                without_sep = takeWhile is_digit r
            in if with_sep \<noteq> [] then Some with_sep
               else if without_sep \<noteq> [] then Some without_sep
               else None)
      else None)"

section \<open>Configuration\<close>

definition TABLE_NAME :: string where
  "TABLE_NAME = ''ticketdetails''"

definition STATUS_MAP :: "(string \<times> string) list" where
  \<comment> \<open>a \<^verbatim>\<open>dict\<close>, iterated in insertion order\<close>
  "STATUS_MAP =
     [(''new incident'', ''New''),
      (''new case'', ''New''),
      (''pending'', ''New''),
      (''open'', ''New''),
      (''in progress'', ''In Progress''),
      (''assign to group'', ''Assign to Group'')]"

section \<open>Fast intent routing\<close>

definition fast_intent :: "string \<Rightarrow> string option" where
  "fast_intent question =
     (let q = lower question in
      if (contains ''pending'' q \<or> contains ''belum tutup'' q)
         \<and> any_in [''how many'', ''berapa'', ''count'', ''jumlah''] q
      then Some (''SELECT COUNT(*) AS total_pending FROM '' @ TABLE_NAME
                 @ '' WHERE TicketStatus='Pending';'')
      else if any_in [''open'', ''belum tutup'', ''masih buka''] q
      then Some (''SELECT IncidentID, TicketStatus, AssignPerson FROM '' @ TABLE_NAME
                 @ '' WHERE TicketStatus IN ('Open','In Progress','Assign to Group') ORDER BY id DESC LIMIT 50;'')
      else if any_in [''latest'', ''terkini'', ''baru''] q
      then Some (''SELECT IncidentID, TicketStatus, TicketSubmittedDateTime FROM '' @ TABLE_NAME
                 @ '' ORDER BY id DESC LIMIT 50;'')
      else if any_in [''new case'', ''new cases'', ''kes baru''] q
      then Some (''SELECT IncidentID, TicketStatus, TicketSubmittedDateTime FROM '' @ TABLE_NAME
                 @ '' WHERE TicketStatus='New' ORDER BY id DESC LIMIT 50;'')
      else (case re_search match_inc q of
              Some inc \<Rightarrow> Some (''SELECT TicketStatus FROM '' @ TABLE_NAME
                                @ '' WHERE IncidentID='' @ [CHR 0x27] @ inc @ [CHR 0x27] @ '';'')
            | None \<Rightarrow> None))"

section \<open>SQL cleaning\<close>

definition clean_sql :: "string \<Rightarrow> string" where
  "clean_sql raw =
     (if raw = [] then []
      else (let raw' = strip (re_sub match_fence [] raw) in
            case re_search match_select_semi raw' of
              Some m \<Rightarrow> strip m
            | None \<Rightarrow>
                (case re_search match_select_rest raw' of
                   Some m \<Rightarrow> strip m
                 | None \<Rightarrow> [])))"

section \<open>SQL repair engine\<close>

definition fix_table :: "string \<Rightarrow> string" where
  \<comment> \<open>Ensure FROM correct table\<close>
  "fix_table sql = re_sub (match_kw_ident ''FROM'') (''FROM '' @ TABLE_NAME) sql"

definition fix_where :: "string \<Rightarrow> string" where
  \<comment> \<open>Fix WHERE clause column names to TicketStatus\<close>
  "fix_where sql = re_sub (match_kw_ident ''WHERE'') ''WHERE TicketStatus'' sql"

definition fix_status :: "string \<Rightarrow> string" where
  \<comment> \<open>Fix status values using \<open>STATUS_MAP\<close>: one substitution per entry, in order\<close>
  "fix_status sql =
     foldl (\<lambda>s (k, v). re_sub (match_quoted k) ([CHR 0x27] @ v @ [CHR 0x27]) s) sql STATUS_MAP"

definition ensure_limit :: "string \<Rightarrow> string" where
  \<comment> \<open>Ensure LIMIT 50 if no COUNT and no LIMIT\<close>
  "ensure_limit sql =
     (if \<not> contains ''count('' (lower sql) \<and> \<not> contains ''limit'' (lower sql)
      then rstrip_chars '';'' sql @ '' LIMIT 50''
      else sql)"

definition ensure_semicolon :: "string \<Rightarrow> string" where
  "ensure_semicolon sql = (if \<not> endswith (strip sql) '';'' then sql @ '';'' else sql)"

definition repair_sql :: "string \<Rightarrow> string" where
  "repair_sql sql =
     (if sql = [] then sql
      else ensure_semicolon (ensure_limit (fix_status (fix_where (fix_table sql)))))"

section \<open>Prompt builder and language-model client\<close>

definition build_prompt :: "string \<Rightarrow> string" where
  \<comment> \<open>the f-string, line by line; every line ends with a line feed\<close>
  "build_prompt question =
     concat (map (\<lambda>l. l @ [CHR 0x0A])
       [[],
        ''You are a MySQL expert.'',
        ''Return ONLY ONE valid SELECT query.'',
        ''STRICT RULES:'',
        ''- SELECT only'',
        ''- No explanation'',
        ''- No comments'',
        ''- No markdown'',
        ''- Use table '' @ TABLE_NAME,
        ''- Use LIMIT 50 unless COUNT'',
        [],
        ''User Question:'',
        question,
        [],
        ''SQL:''])"

text \<open>
  The HTTP exchange of \<^verbatim>\<open>call_llm\<close> is the one effect the program does not control. Its
  outcome is a value: \<open>Raised\<close> stands for every exception inside the \<^verbatim>\<open>try\<close> block (no
  connection, the 60 second timeout, an error status at \<^verbatim>\<open>raise_for_status\<close>, a body
  that is not a JSON object, a \<^verbatim>\<open>response\<close> field that is not a string), \<open>No_field\<close>
  for a JSON object without the key \<^verbatim>\<open>response\<close>, \<open>Response t\<close> for the text found there.
\<close>

datatype http_outcome = Raised | No_field | Response string

definition call_llm :: "(string \<Rightarrow> http_outcome) \<Rightarrow> string \<Rightarrow> string" where
  "call_llm post prompt =
     (case post prompt of
        Raised \<Rightarrow> []
      | No_field \<Rightarrow> strip []
      | Response t \<Rightarrow> strip t)"

section \<open>Main generator\<close>

text \<open>
  The generation service is a function of the number of requests made so far and of the
  prompt, so that two requests with one prompt may be answered differently. The state of
  the process is the \<^verbatim>\<open>lru_cache\<close> of \<^verbatim>\<open>generate_sql\<close> and a trace, which records each
  request to the service and each statement handed to the repair engine.
\<close>

type_synonym service = "nat \<Rightarrow> string \<Rightarrow> http_outcome"

datatype event = Request string | Repair string

fun is_request :: "event \<Rightarrow> bool" where
  "is_request (Request p) = True"
| "is_request (Repair s) = False"

definition requests :: "event list \<Rightarrow> nat" where
  "requests tr = length (filter is_request tr)"

record gen_state =
  cache :: "(string \<times> string option) list"
  trace :: "event list"

definition init_state :: gen_state where
  "init_state = \<lparr>cache = [], trace = []\<rparr>"

definition llm_generation :: "service \<Rightarrow> string \<Rightarrow> event list \<Rightarrow> string option \<times> event list" where
  \<comment> \<open>the part of \<^verbatim>\<open>generate_sql\<close> below the comment \<^verbatim>\<open># LLM generation\<close>\<close>
  "llm_generation svc question tr =
     (let prompt = build_prompt question;
          raw = call_llm (svc (requests tr)) prompt;
          tr1 = tr @ [Request prompt]
      in if raw = [] then (None, tr1)
         else (let sql = clean_sql raw
               in if \<not> valid_sql sql then (None, tr1)
                  else (Some (strip (repair_sql sql)), tr1 @ [Repair sql])))"

definition generate_sql_body :: "service \<Rightarrow> string \<Rightarrow> event list \<Rightarrow> string option \<times> event list" where
  \<comment> \<open>the function under the decorator; \<^verbatim>\<open>if fast:\<close> is false for \<^verbatim>\<open>None\<close> and for
      the empty string\<close>
  "generate_sql_body svc question tr =
     (case fast_intent question of
        Some fast \<Rightarrow>
          if fast \<noteq> [] then (Some (strip fast), tr)
          else llm_generation svc question tr
      | None \<Rightarrow> llm_generation svc question tr)"

definition lru_maxsize :: nat where
  "lru_maxsize = 200"

definition generate_sql :: "service \<Rightarrow> string \<Rightarrow> gen_state \<Rightarrow> string option \<times> gen_state" where
  \<comment> \<open>\<^verbatim>\<open>@lru_cache(maxsize=200)\<close>: the cache is keyed by the question and kept in order of
      use, the most recent entry first. A hit returns the stored result, whatever it is,
      and moves the entry to the front; a miss runs the function, stores its result and
      drops the least recently used entry when the cache is full.\<close>
  "generate_sql svc question st =
     (case map_of (cache st) question of
        Some r \<Rightarrow>
          (r, st\<lparr>cache := (question, r) # filter (\<lambda>e. fst e \<noteq> question) (cache st)\<rparr>)
      | None \<Rightarrow>
          (let (r, tr') = generate_sql_body svc question (trace st)
           in (r, \<lparr>cache = take lru_maxsize ((question, r) # cache st), trace = tr'\<rparr>)))"

inductive reachable :: "gen_state \<Rightarrow> bool" where
  start: "reachable init_state"
| call: "reachable st \<Longrightarrow> generate_sql svc question st = (r, st') \<Longrightarrow> reachable st'"

section \<open>Evaluation rules\<close>

text \<open>The definitions, collected for the evaluation of the model on concrete texts.\<close>

lemmas char_eval = code_def is_space_def is_lower_def is_upper_def is_digit_def is_word_def
  upper_char_def lower_char_def char_of_def is_quote_def bit_Suc_0_iff
lemmas str_eval = upper_def lower_def lstrip_def rstrip_def strip_def rstrip_chars_def
  startswith_def endswith_def any_in_def starts_ci_def suffix_to_prefix
lemmas re_eval = match_fence_def match_select_semi_def match_select_rest_def match_kw_ident_def
  match_quoted_def match_inc_def
lemmas sql_eval = forbidden_def valid_sql_def TABLE_NAME_def STATUS_MAP_def fast_intent_def
  clean_sql_def fix_table_def fix_where_def fix_status_def ensure_limit_def ensure_semicolon_def
  repair_sql_def Let_def
lemmas eval = char_eval str_eval re_eval sql_eval

section \<open>Substring search and trimming\<close>

lemma contains_sublist: "contains sub s \<longleftrightarrow> sublist sub s"
  by (induction s) (simp_all add: sublist_Cons_right)

lemma any_in_sublist: "any_in xs s \<longleftrightarrow> (\<exists>x\<in>set xs. sublist x s)"
  by (simp add: any_in_def list_ex_iff contains_sublist)

lemma sublist_drop_left:
  assumes "sublist tok (a @ m)" "tok \<noteq> []" "\<forall>c\<in>set a. c \<notin> set tok"
  shows "sublist tok m"
  using assms
proof (induction a)
  case Nil
  then show ?case by simp
next
  case (Cons x a)
  from Cons.prems have "\<not> prefix tok (x # a @ m)"
    by (cases tok) auto
  with Cons show ?case by (simp add: sublist_Cons_right)
qed

lemma sublist_drop_right:
  assumes "sublist tok (m @ b)" "tok \<noteq> []" "\<forall>c\<in>set b. c \<notin> set tok"
  shows "sublist tok m"
proof -
  from assms(1) have "sublist (rev tok) (rev b @ rev m)"
    by (metis rev_append sublist_rev)
  then have "sublist (rev tok) (rev m)"
    by (rule sublist_drop_left) (use assms(2,3) in auto)
  then show ?thesis by (simp add: sublist_rev)
qed

lemma lstrip_decomp: "\<exists>a. s = a @ lstrip s \<and> (\<forall>c\<in>set a. is_space c)"
  unfolding lstrip_def
  by (rule exI[of _ "takeWhile is_space s"]) (auto dest: set_takeWhileD)

lemma rstrip_decomp: "\<exists>b. s = rstrip s @ b \<and> (\<forall>c\<in>set b. is_space c)"
proof -
  have "rev s = takeWhile is_space (rev s) @ dropWhile is_space (rev s)" by simp
  then have "s = rev (dropWhile is_space (rev s)) @ rev (takeWhile is_space (rev s))"
    by (metis rev_append rev_rev_ident)
  then show ?thesis unfolding rstrip_def
    by (intro exI[of _ "rev (takeWhile is_space (rev s))"]) (auto dest: set_takeWhileD)
qed

lemma strip_decomp:
  "\<exists>a b. s = a @ strip s @ b \<and> (\<forall>c\<in>set a. is_space c) \<and> (\<forall>c\<in>set b. is_space c)"
proof -
  obtain a where a: "s = a @ lstrip s" "\<forall>c\<in>set a. is_space c"
    using lstrip_decomp by blast
  obtain b where b: "lstrip s = rstrip (lstrip s) @ b" "\<forall>c\<in>set b. is_space c"
    using rstrip_decomp by blast
  from a b show ?thesis unfolding strip_def by metis
qed

lemma sublist_strip:
  assumes "tok \<noteq> []" "\<forall>c\<in>set tok. \<not> is_space c"
  shows "sublist tok (strip s) \<longleftrightarrow> sublist tok s"
proof -
  obtain a b where d: "s = a @ strip s @ b" "\<forall>c\<in>set a. is_space c" "\<forall>c\<in>set b. is_space c"
    using strip_decomp by blast
  show ?thesis
  proof
    assume "sublist tok (strip s)"
    then have "sublist tok (a @ strip s @ b)"
      by (meson sublist_appendI sublist_order.order_trans)
    with d(1) show "sublist tok s" by simp
  next
    assume "sublist tok s"
    with d(1) have "sublist tok (a @ strip s @ b)" by simp
    then have "sublist tok (strip s @ b)"
      by (rule sublist_drop_left) (use assms d(2) in auto)
    then show "sublist tok (strip s)"
      by (rule sublist_drop_right) (use assms d(3) in auto)
  qed
qed

lemma forbidden_no_space: "tok \<in> set forbidden \<Longrightarrow> tok \<noteq> [] \<and> (\<forall>c\<in>set tok. \<not> is_space c)"
  by (auto simp: forbidden_def is_space_def code_def)

lemma any_in_forbidden_strip: "any_in forbidden (strip u) \<longleftrightarrow> any_in forbidden u"
  using forbidden_no_space by (auto simp: any_in_sublist sublist_strip)

lemma valid_sql_iff:
  "valid_sql sql \<longleftrightarrow>
     sql \<noteq> [] \<and> prefix ''SELECT'' (strip (upper sql)) \<and> \<not> any_in forbidden (upper sql)"
  by (auto simp: valid_sql_def Let_def startswith_def any_in_forbidden_strip)

text \<open>
  Claim C2. The safety validator accepts exactly the statements that are not empty, whose
  upper-cased and trimmed form starts with \<open>SELECT\<close>, and whose upper-cased form holds
  none of \<open>UPDATE\<close>, \<open>DELETE\<close>, \<open>INSERT\<close>, \<open>DROP\<close>, \<open>ALTER\<close>, \<open>TRUNCATE\<close> and \<open>--\<close>
  anywhere, quoted or not; it rejects every other string.
\<close>

theorem valid_sql_exact:
  "valid_sql sql \<longleftrightarrow>
     sql \<noteq> [] \<and> prefix ''SELECT'' (strip (upper sql))
     \<and> \<not> sublist ''UPDATE'' (upper sql) \<and> \<not> sublist ''DELETE'' (upper sql)
     \<and> \<not> sublist ''INSERT'' (upper sql) \<and> \<not> sublist ''DROP'' (upper sql)
     \<and> \<not> sublist ''ALTER'' (upper sql) \<and> \<not> sublist ''TRUNCATE'' (upper sql)
     \<and> \<not> sublist ''--'' (upper sql)"
  unfolding valid_sql_iff any_in_sublist by (simp add: forbidden_def)

section \<open>Row cap and terminator\<close>

lemma lstrip_snoc: "\<not> is_space c \<Longrightarrow> lstrip (x @ [c]) = lstrip x @ [c]"
  unfolding lstrip_def by (induction x) auto

lemma rstrip_snoc: "\<not> is_space c \<Longrightarrow> rstrip (x @ [c]) = x @ [c]"
  unfolding rstrip_def by simp

lemma strip_snoc: "\<not> is_space c \<Longrightarrow> strip (x @ [c]) = lstrip x @ [c]"
  unfolding strip_def by (simp add: lstrip_snoc rstrip_snoc)

lemma endswith_snoc: "endswith (x @ [c]) [d] \<longleftrightarrow> c = d"
  unfolding endswith_def by (auto simp: suffix_def)

lemma semicolon_not_space: "\<not> is_space (CHR '';'')"
  by (simp add: is_space_def code_def)

lemma zero_not_space: "\<not> is_space (CHR ''0'')"
  by (simp add: is_space_def code_def)

lemma ensure_semicolon_limit:
  "ensure_semicolon (x @ '' LIMIT 50'') = x @ '' LIMIT 50;''"
proof -
  have "strip ((x @ '' LIMIT 5'') @ ''0'') = lstrip (x @ '' LIMIT 5'') @ ''0''"
    by (rule strip_snoc) (rule zero_not_space)
  then have "\<not> endswith (strip (x @ '' LIMIT 50'')) '';''"
    by (simp add: endswith_snoc)
  then show ?thesis by (simp add: ensure_semicolon_def)
qed

lemma rstrip_chars_decomp: "\<exists>k. s = rstrip_chars [c] s @ replicate k c"
proof -
  have "rev s = takeWhile (\<lambda>x. x = c) (rev s) @ dropWhile (\<lambda>x. x = c) (rev s)" by simp
  moreover have "takeWhile (\<lambda>x. x = c) (rev s) = replicate (length (takeWhile (\<lambda>x. x = c) (rev s))) c"
    by (rule replicate_length_same[symmetric]) (auto dest: set_takeWhileD)
  ultimately have "rev s = replicate (length (takeWhile (\<lambda>x. x = c) (rev s))) c @ dropWhile (\<lambda>x. x = c) (rev s)"
    by simp
  then have "s = rev (dropWhile (\<lambda>x. x = c) (rev s)) @ replicate (length (takeWhile (\<lambda>x. x = c) (rev s))) c"
    by (metis rev_append rev_replicate rev_rev_ident)
  then show ?thesis unfolding rstrip_chars_def by auto
qed

lemma replicate_semicolon_neq: "replicate k (CHR '';'') \<noteq> '' LIMIT 50;''"
  by (cases k) auto

lemma replicate_semicolon_neq': "replicate k (CHR '';'') @ '';'' \<noteq> '' LIMIT 50;''"
  by (cases k) auto

lemma uncapped_differs:
  assumes "y = t \<or> y = t @ '';''"
  shows "y \<noteq> rstrip_chars '';'' t @ '' LIMIT 50;''"
proof -
  obtain k where k: "t = rstrip_chars '';'' t @ replicate k (CHR '';'')"
    using rstrip_chars_decomp by blast
  show ?thesis
  proof
    assume eq: "y = rstrip_chars '';'' t @ '' LIMIT 50;''"
    from assms show False
    proof
      assume "y = t"
      with eq k have "rstrip_chars '';'' t @ replicate k (CHR '';'') = rstrip_chars '';'' t @ '' LIMIT 50;''"
        by simp
      then show False using replicate_semicolon_neq by simp
    next
      assume "y = t @ '';''"
      with eq k have "rstrip_chars '';'' t @ (replicate k (CHR '';'') @ '';'') = rstrip_chars '';'' t @ '' LIMIT 50;''"
        by (metis append.assoc)
      then show False using replicate_semicolon_neq' by (simp only: same_append_eq)
    qed
  qed
qed

text \<open>
  Claim C7, as amended. For a statement that is not empty, the repair engine appends the
  cap \<open>LIMIT 50\<close> (trailing semicolons removed, one terminating semicolon added) exactly
  when the statement, after the table, column and status rewrites, holds neither
  \<open>count(\<close> nor \<open>limit\<close> in any letter case. Other aggregates do not exempt a statement.
\<close>

theorem limit_appended_iff:
  assumes "sql \<noteq> []"
  shows "repair_sql sql = rstrip_chars '';'' (fix_status (fix_where (fix_table sql))) @ '' LIMIT 50;''
     \<longleftrightarrow> \<not> contains ''count('' (lower (fix_status (fix_where (fix_table sql))))
          \<and> \<not> contains ''limit'' (lower (fix_status (fix_where (fix_table sql))))"
proof (cases "\<not> contains ''count('' (lower (fix_status (fix_where (fix_table sql))))
          \<and> \<not> contains ''limit'' (lower (fix_status (fix_where (fix_table sql))))")
  case True
  then show ?thesis using assms
    by (simp add: repair_sql_def ensure_limit_def ensure_semicolon_limit)
next
  case False
  then have "repair_sql sql = ensure_semicolon (fix_status (fix_where (fix_table sql)))"
    using assms by (auto simp: repair_sql_def ensure_limit_def)
  then have "repair_sql sql = fix_status (fix_where (fix_table sql))
     \<or> repair_sql sql = fix_status (fix_where (fix_table sql)) @ '';''"
    by (simp add: ensure_semicolon_def)
  then have "repair_sql sql \<noteq> rstrip_chars '';'' (fix_status (fix_where (fix_table sql))) @ '' LIMIT 50;''"
    by (rule uncapped_differs)
  with False show ?thesis by blast
qed

theorem limit_appended_iff_witness:
  "''SELECT AVG(tat) FROM t;'' \<noteq> []
   \<and> repair_sql ''SELECT AVG(tat) FROM t;''
       = rstrip_chars '';'' (fix_status (fix_where (fix_table ''SELECT AVG(tat) FROM t;''))) @ '' LIMIT 50;''
   \<and> \<not> contains ''count('' (lower (fix_status (fix_where (fix_table ''SELECT AVG(tat) FROM t;''))))
   \<and> \<not> contains ''limit'' (lower (fix_status (fix_where (fix_table ''SELECT AVG(tat) FROM t;''))))"
proof -
  have ne: "''SELECT AVG(tat) FROM t;'' \<noteq> []" by simp
  have c: "\<not> contains ''count('' (lower (fix_status (fix_where (fix_table ''SELECT AVG(tat) FROM t;''))))
   \<and> \<not> contains ''limit'' (lower (fix_status (fix_where (fix_table ''SELECT AVG(tat) FROM t;''))))"
    by (simp add: eval)
  with limit_appended_iff[OF ne] show ?thesis by blast
qed

text \<open>
  A validated statement with the aggregate call \<open>AVG(\<close> and no row limit is capped all
  the same: the claim as first stated fails here.
\<close>

theorem aggregate_capped_counterexample:
  "contains ''AVG('' ''SELECT AVG(tat) FROM ticketdetails;''
   \<and> valid_sql ''SELECT AVG(tat) FROM ticketdetails;''
   \<and> repair_sql ''SELECT AVG(tat) FROM ticketdetails;'' = ''SELECT AVG(tat) FROM ticketdetails LIMIT 50;''"
  by (simp add: eval)

section \<open>Repairing twice\<close>

lemma sublist_appendR: "sublist a x \<Longrightarrow> sublist a (x @ y)"
  by (simp add: sublist_append)

lemma lower_append: "lower (x @ y) = lower x @ lower y"
  by (simp add: lower_def)

lemma upper_append: "upper (x @ y) = upper x @ upper y"
  by (simp add: upper_def)

lemma repair_sql_unfold:
  "x \<noteq> [] \<Longrightarrow> repair_sql x = ensure_semicolon (ensure_limit (fix_status (fix_where (fix_table x))))"
  by (simp add: repair_sql_def)

lemma ensure_semicolon_cases: "ensure_semicolon u = u \<or> ensure_semicolon u = u @ '';''"
  by (simp add: ensure_semicolon_def)

lemma capped_or_counted:
  "contains ''count('' (lower (ensure_semicolon (ensure_limit t)))
   \<or> contains ''limit'' (lower (ensure_semicolon (ensure_limit t)))"
proof (cases "\<not> contains ''count('' (lower t) \<and> \<not> contains ''limit'' (lower t)")
  case True
  then have "ensure_semicolon (ensure_limit t) = rstrip_chars '';'' t @ '' LIMIT 50;''"
    by (simp add: ensure_limit_def ensure_semicolon_limit)
  moreover have "lower (rstrip_chars '';'' t @ '' LIMIT 50;'')
      = (lower (rstrip_chars '';'' t) @ '' '') @ ''limit'' @ '' 50;''"
    by (simp add: lower_def char_eval)
  ultimately have "sublist ''limit'' (lower (ensure_semicolon (ensure_limit t)))"
    by (simp only: sublist_appendI)
  then show ?thesis by (simp add: contains_sublist)
next
  case False
  then have "ensure_limit t = t" by (auto simp: ensure_limit_def)
  with False ensure_semicolon_cases[of t] show ?thesis
    by (auto simp: contains_sublist lower_append sublist_appendR)
qed

lemma terminated: "endswith (strip (ensure_semicolon u)) '';''"
proof (cases "endswith (strip u) '';''")
  case True
  then show ?thesis by (simp add: ensure_semicolon_def)
next
  case False
  then have "ensure_semicolon u = u @ '';''" by (simp add: ensure_semicolon_def)
  moreover have "strip (u @ '';'') = lstrip u @ '';''"
    by (rule strip_snoc) (rule semicolon_not_space)
  ultimately show ?thesis by (simp add: endswith_snoc)
qed

lemma ensure_semicolon_nonempty: "ensure_semicolon u \<noteq> []"
  using terminated[of u] by (auto simp: endswith_def strip_def lstrip_def rstrip_def)

text \<open>
  Claim C8, as amended. Repairing a repaired statement changes nothing whenever the three
  rewriting steps (table, column, status values) leave the repaired statement as it is:
  the cap and the terminator are never added a second time.
\<close>

theorem repair_twice:
  assumes "fix_status (fix_where (fix_table (repair_sql x))) = repair_sql x"
  shows "repair_sql (repair_sql x) = repair_sql x"
proof (cases "x = []")
  case True
  then show ?thesis by (simp add: repair_sql_def)
next
  case False
  define t where "t = fix_status (fix_where (fix_table x))"
  define y where "y = ensure_semicolon (ensure_limit t)"
  have y: "repair_sql x = y" using False by (simp add: repair_sql_unfold y_def t_def)
  have ne: "y \<noteq> []" unfolding y_def by (rule ensure_semicolon_nonempty)
  have cap: "contains ''count('' (lower y) \<or> contains ''limit'' (lower y)"
    unfolding y_def by (rule capped_or_counted)
  have semi: "endswith (strip y) '';''" unfolding y_def by (rule terminated)
  have "repair_sql y = ensure_semicolon (ensure_limit y)"
    using ne assms y by (simp add: repair_sql_unfold)
  also have "ensure_limit y = y" using cap by (auto simp: ensure_limit_def)
  also have "ensure_semicolon y = y" using semi by (simp add: ensure_semicolon_def)
  finally show ?thesis using y by simp
qed

theorem repair_twice_witness:
  "fix_status (fix_where (fix_table (repair_sql ''SELECT a FROM t''))) = repair_sql ''SELECT a FROM t''
   \<and> repair_sql (repair_sql ''SELECT a FROM t'') = repair_sql ''SELECT a FROM t''"
proof -
  have r: "repair_sql ''SELECT a FROM t'' = ''SELECT a FROM ticketdetails LIMIT 50;''"
    by (simp add: eval)
  have f: "fix_status (fix_where (fix_table ''SELECT a FROM ticketdetails LIMIT 50;''))
      = ''SELECT a FROM ticketdetails LIMIT 50;''"
    by (simp add: eval)
  from r f have h: "fix_status (fix_where (fix_table (repair_sql ''SELECT a FROM t''))) = repair_sql ''SELECT a FROM t''"
    by simp
  from h repair_twice[OF h] show ?thesis by blast
qed

text \<open>
  The validated statement \<open>SELECT * FROM\<close> is capped by the first repair; the second
  repair reads the appended \<open>LIMIT\<close> as a table name, rewrites it and caps again.
\<close>

theorem repair_twice_counterexample:
  "valid_sql ''SELECT * FROM''
   \<and> repair_sql ''SELECT * FROM'' = ''SELECT * FROM LIMIT 50;''
   \<and> repair_sql (repair_sql ''SELECT * FROM'') = ''SELECT * FROM ticketdetails 50 LIMIT 50;''"
proof -
  have v: "valid_sql ''SELECT * FROM''" by (simp add: eval)
  have r: "repair_sql ''SELECT * FROM'' = ''SELECT * FROM LIMIT 50;''" by (simp add: eval)
  have r2: "repair_sql ''SELECT * FROM LIMIT 50;'' = ''SELECT * FROM ticketdetails 50 LIMIT 50;''"
    by (simp add: eval)
  from v r r2 show ?thesis by simp
qed

section \<open>What the cleaner extracts\<close>

lemma re_search_Some:
  "re_search m s = Some r \<Longrightarrow> \<exists>pre suf. s = pre @ suf \<and> m suf = Some r"
proof (induction s)
  case Nil
  then show ?case by simp
next
  case (Cons c cs)
  show ?case
  proof (cases "m (c # cs)")
    case None
    with Cons obtain pre suf where "cs = pre @ suf" "m suf = Some r" by auto
    then have "c # cs = (c # pre) @ suf \<and> m suf = Some r" by simp
    then show ?thesis by blast
  next
    case (Some a)
    with Cons.prems have "c # cs = [] @ (c # cs) \<and> m (c # cs) = Some r" by simp
    then show ?thesis by blast
  qed
qed


lemma sublist_lower: "sublist a b \<Longrightarrow> sublist (lower a) (lower b)"
  unfolding sublist_def lower_def by (metis map_append)

lemma starts_ci_sublist: "starts_ci lit s \<Longrightarrow> sublist (lower lit) (lower s)"
proof -
  assume "starts_ci lit s"
  then have "lower (take (length lit) s) = lower lit" by (simp add: starts_ci_def)
  moreover have "sublist (lower (take (length lit) s)) (lower s)"
    by (rule sublist_lower) simp
  ultimately show ?thesis by simp
qed

lemma lower_SELECT: "lower ''SELECT'' = ''select''"
  by (simp add: lower_def char_eval)

lemma sublist_strip_imp: "sublist a (strip s) \<Longrightarrow> sublist a s"
proof -
  assume a: "sublist a (strip s)"
  obtain p q where "s = p @ strip s @ q" using strip_decomp by blast
  then have "sublist (strip s) s" by (metis sublist_appendI)
  with a show ?thesis by (rule sublist_order.order_trans)
qed

lemma search_semi_select:
  assumes "re_search match_select_semi t = Some m"
  shows "sublist ''select'' (lower t)"
proof -
  obtain pre suf where s: "t = pre @ suf" "match_select_semi suf = Some m"
    using re_search_Some[OF assms] by blast
  then have "starts_ci ''SELECT'' suf"
    by (auto simp: match_select_semi_def split: if_splits)
  then have "sublist ''select'' (lower suf)"
    using starts_ci_sublist lower_SELECT by fastforce
  then show ?thesis using s(1) by (simp add: lower_append sublist_append)
qed

lemma search_rest_select:
  assumes "re_search match_select_rest t = Some m"
  shows "sublist ''select'' (lower t)"
proof -
  obtain pre suf where s: "t = pre @ suf" "match_select_rest suf = Some m"
    using re_search_Some[OF assms] by blast
  then have "starts_ci ''SELECT'' suf"
    by (auto simp: match_select_rest_def split: if_splits)
  then have "sublist ''select'' (lower suf)"
    using starts_ci_sublist lower_SELECT by fastforce
  then show ?thesis using s(1) by (simp add: lower_append sublist_append)
qed

text \<open>
  Claim C9, as amended. The cleaner looks for \<open>SELECT\<close> after it has deleted the code-fence
  markers. For every raw text whose form without the markers holds no \<open>select\<close> in any
  letter case, the cleaner returns the empty string.
\<close>

theorem clean_sql_without_select:
  assumes "\<not> contains ''select'' (lower (re_sub match_fence [] raw))"
  shows "clean_sql raw = []"
proof -
  have no: "\<not> sublist ''select'' (lower (strip (re_sub match_fence [] raw)))"
    using assms sublist_strip_imp sublist_lower
    by (metis contains_sublist lower_def sublist_map_rightE)
  have "re_search match_select_semi (strip (re_sub match_fence [] raw)) = None"
    using no search_semi_select by (cases "re_search match_select_semi (strip (re_sub match_fence [] raw))") auto
  moreover have "re_search match_select_rest (strip (re_sub match_fence [] raw)) = None"
    using no search_rest_select by (cases "re_search match_select_rest (strip (re_sub match_fence [] raw))") auto
  ultimately show ?thesis by (simp add: clean_sql_def)
qed

theorem clean_sql_without_select_witness:
  "\<not> contains ''select'' (lower (re_sub match_fence [] ''```sql I cannot answer```''))
   \<and> clean_sql ''```sql I cannot answer```'' = []"
proof -
  have h: "\<not> contains ''select'' (lower (re_sub match_fence [] ''```sql I cannot answer```''))"
    by (simp add: eval)
  from h clean_sql_without_select[OF h] show ?thesis by blast
qed

text \<open>
  The raw text \<open>SEL```ECT 1;\<close> holds no \<open>SELECT\<close>, yet deleting the fence marker makes
  one, and the cleaner returns a statement.
\<close>

theorem clean_sql_fence_counterexample:
  "\<not> contains ''select'' (lower ''SEL```ECT 1;'') \<and> clean_sql ''SEL```ECT 1;'' = ''SELECT 1;''"
  by (simp add: eval)








lemma rstrip_prefix: "prefix (rstrip s) s"
  using rstrip_decomp[of s] by (metis prefixI)




section \<open>The cache of the generator\<close>

lemma generate_sql_stores:
  assumes "generate_sql svc q st = (r, st')"
  shows "map_of (cache st') q = Some r"
proof (cases "map_of (cache st) q")
  case None
  with assms show ?thesis
    by (auto simp: generate_sql_def lru_maxsize_def split: prod.splits)
next
  case (Some a)
  with assms show ?thesis by (auto simp: generate_sql_def)
qed

lemma generate_sql_hit:
  assumes "map_of (cache st) q = Some r"
  shows "fst (generate_sql svc q st) = r \<and> trace (snd (generate_sql svc q st)) = trace st"
  using assms by (simp add: generate_sql_def)

text \<open>
  Claim C5, as amended. The cache stores every result of \<open>generate_sql\<close>, absence
  included: a call that directly follows a call with the same question returns the same
  result from the cache and sends no request to the generation service, whatever the
  service would answer now.
\<close>

theorem repeat_served_from_cache:
  assumes "generate_sql svc q st = (r, st')"
  shows "fst (generate_sql svc' q st') = r
     \<and> trace (snd (generate_sql svc' q st')) = trace st'"
  using generate_sql_hit[OF generate_sql_stores[OF assms]] .

theorem repeat_served_from_cache_witness:
  "generate_sql (\<lambda>n p. Raised) ''hi'' init_state
     = (None, \<lparr>cache = [(''hi'', None)], trace = [Request (build_prompt ''hi'')]\<rparr>)
   \<and> fst (generate_sql (\<lambda>n p. Response ''SELECT 1;'') ''hi''
        \<lparr>cache = [(''hi'', None)], trace = [Request (build_prompt ''hi'')]\<rparr>) = None
   \<and> trace (snd (generate_sql (\<lambda>n p. Response ''SELECT 1;'') ''hi''
        \<lparr>cache = [(''hi'', None)], trace = [Request (build_prompt ''hi'')]\<rparr>))
      = trace \<lparr>cache = [(''hi'', None)], trace = [Request (build_prompt ''hi'')]\<rparr>"
proof -
  have f: "fast_intent ''hi'' = None" by (simp add: eval)
  have h: "generate_sql (\<lambda>n p. Raised) ''hi'' init_state
     = (None, \<lparr>cache = [(''hi'', None)], trace = [Request (build_prompt ''hi'')]\<rparr>)"
    by (simp add: generate_sql_def generate_sql_body_def llm_generation_def call_llm_def
        init_state_def lru_maxsize_def f Let_def)
  from h repeat_served_from_cache[OF h] show ?thesis by blast
qed

text \<open>
  The first request fails and \<open>generate_sql\<close> returns absence. The service is back for
  the second call, and a fresh attempt would give a statement, but the second call
  returns the cached absence and sends no request.
\<close>

theorem cached_failure_counterexample:
  "generate_sql (\<lambda>n p. if n = 0 then Raised else Response ''SELECT 1;'') ''hi'' init_state
     = (None, \<lparr>cache = [(''hi'', None)], trace = [Request (build_prompt ''hi'')]\<rparr>)
   \<and> generate_sql (\<lambda>n p. if n = 0 then Raised else Response ''SELECT 1;'') ''hi''
        \<lparr>cache = [(''hi'', None)], trace = [Request (build_prompt ''hi'')]\<rparr>
     = (None, \<lparr>cache = [(''hi'', None)], trace = [Request (build_prompt ''hi'')]\<rparr>)
   \<and> fst (generate_sql_body (\<lambda>n p. if n = 0 then Raised else Response ''SELECT 1;'') ''hi''
        [Request (build_prompt ''hi'')]) = Some ''SELECT 1 LIMIT 50;''"
proof -
  have f: "fast_intent ''hi'' = None" by (simp add: eval)
  have c: "clean_sql ''SELECT 1;'' = ''SELECT 1;''" by (simp add: eval)
  have v: "valid_sql ''SELECT 1;''" by (simp add: eval)
  have r: "strip (repair_sql ''SELECT 1;'') = ''SELECT 1 LIMIT 50;''" by (simp add: eval)
  have s: "strip ''SELECT 1;'' = ''SELECT 1;''" by (simp add: eval)
  show ?thesis
    by (simp add: generate_sql_def generate_sql_body_def llm_generation_def call_llm_def
        init_state_def lru_maxsize_def requests_def f c v r s Let_def)
qed

section \<open>Failure of the slow path\<close>

text \<open>
  Claim C3. Every failure of the slow path ends in absence, as a returned value: when
  the request to the generation service raises (no connection, timeout, error status,
  malformed body), when the text it yields is empty, when cleaning leaves nothing, and
  when the cleaned candidate fails the validator. The trace of such a call gains the
  request and nothing else: the candidate is not handed to the repair engine.
\<close>

theorem failure_gives_absence:
  assumes "map_of (cache st) q = None" and "fast_intent q = None"
    and "svc (requests (trace st)) (build_prompt q) = Raised
       \<or> call_llm (svc (requests (trace st))) (build_prompt q) = []
       \<or> clean_sql (call_llm (svc (requests (trace st))) (build_prompt q)) = []
       \<or> \<not> valid_sql (clean_sql (call_llm (svc (requests (trace st))) (build_prompt q)))"
  shows "generate_sql svc q st
     = (None, \<lparr>cache = take lru_maxsize ((q, None) # cache st),
               trace = trace st @ [Request (build_prompt q)]\<rparr>)"
proof -
  have e: "\<not> valid_sql []" by (simp add: valid_sql_def)
  have "call_llm (svc (requests (trace st))) (build_prompt q) = []
       \<or> \<not> valid_sql (clean_sql (call_llm (svc (requests (trace st))) (build_prompt q)))"
    using assms(3) e by (auto simp: call_llm_def)
  then have "llm_generation svc q (trace st) = (None, trace st @ [Request (build_prompt q)])"
    by (auto simp: llm_generation_def Let_def)
  then show ?thesis using assms(1,2)
    by (simp add: generate_sql_def generate_sql_body_def)
qed

theorem failure_gives_absence_witness:
  "map_of (cache init_state) ''hi'' = None \<and> fast_intent ''hi'' = None
   \<and> \<not> valid_sql (clean_sql (call_llm ((\<lambda>n p. Response ''select drop;'')
         (requests (trace init_state))) (build_prompt ''hi'')))
   \<and> generate_sql (\<lambda>n p. Response ''select drop;'') ''hi'' init_state
     = (None, \<lparr>cache = take lru_maxsize ((''hi'', None) # cache init_state),
               trace = trace init_state @ [Request (build_prompt ''hi'')]\<rparr>)"
proof -
  have h1: "map_of (cache init_state) ''hi'' = None" by (simp add: init_state_def)
  have h2: "fast_intent ''hi'' = None" by (simp add: eval)
  have c: "clean_sql (strip ''select drop;'') = ''select drop;''" by (simp add: eval)
  have v: "\<not> valid_sql ''select drop;''" by (simp add: eval)
  have h3: "\<not> valid_sql (clean_sql (call_llm ((\<lambda>n p. Response ''select drop;'')
         (requests (trace init_state))) (build_prompt ''hi'')))"
    by (simp add: call_llm_def c v)
  from h1 h2 h3 failure_gives_absence[OF h1 h2 disjI2[OF disjI2[OF disjI2[OF h3]]]]
  show ?thesis by blast
qed

section \<open>Characters and case\<close>

lemma code_char_of: "n < 256 \<Longrightarrow> code (char_of n) = n"
  by (simp add: code_def)

lemma code_less: "code c < 256"
  by (simp add: code_def)

lemma char_of_code: "char_of (code c) = c"
  by (simp add: code_def)

lemma upper_lower_char: "upper_char (lower_char c) = upper_char c"
proof (cases "is_upper c")
  case True
  then have "code (char_of (code c + 32)) = code c + 32"
    by (intro code_char_of) (simp add: is_upper_def)
  with True show ?thesis
    by (simp add: upper_char_def lower_char_def is_lower_def is_upper_def char_of_code)
next
  case False
  then show ?thesis by (simp add: lower_char_def)
qed

lemma upper_lower: "upper (lower s) = upper s"
  by (simp add: upper_def lower_def upper_lower_char)

lemma lower_eq_upper_eq: "lower a = lower b \<Longrightarrow> upper a = upper b"
  by (metis upper_lower)

lemma not_word_upper: "\<not> is_word c \<Longrightarrow> upper_char c = c \<and> \<not> is_upper c"
  by (simp add: is_word_def upper_char_def)

lemma space_upper: "is_space c \<Longrightarrow> upper_char c = c"
  by (auto simp: is_space_def upper_char_def is_lower_def)

lemma is_space_upper: "is_space (upper_char c) = is_space c"
proof (cases "is_lower c")
  case True
  then have "code (char_of (code c - 32)) = code c - 32"
    by (intro code_char_of) (auto simp: is_lower_def)
  with True show ?thesis
    by (auto simp: upper_char_def is_space_def is_lower_def)
next
  case False
  then show ?thesis by (simp add: upper_char_def)
qed

lemma digit_upper: "is_digit c \<Longrightarrow> upper_char c = c"
  by (auto simp: is_digit_def upper_char_def is_lower_def)

lemma lstrip_upper: "lstrip (upper x) = upper (lstrip x)"
  unfolding lstrip_def upper_def
  by (induction x) (simp_all add: is_space_upper)

section \<open>Statements that start with SELECT\<close>

lemma rstrip_append:
  assumes "a \<noteq> []" "\<not> is_space (last a)"
  shows "rstrip (a @ b) = a @ rstrip b"
proof -
  have h: "dropWhile is_space (rev a) = rev a"
    using assms by (cases "rev a") (auto simp: last_rev[symmetric] hd_rev)
  show ?thesis unfolding rstrip_def
    by (simp add: dropWhile_append h)
qed

lemma rstrip_chars_append:
  assumes "a \<noteq> []" "last a \<notin> set cs"
  shows "rstrip_chars cs (a @ b) = a @ rstrip_chars cs b"
proof -
  have h: "dropWhile (\<lambda>c. c \<in> set cs) (rev a) = rev a"
    using assms by (cases "rev a") (auto simp: hd_rev)
  show ?thesis unfolding rstrip_chars_def
    by (simp add: dropWhile_append h)
qed

lemma lstrip_spaces: "\<forall>c\<in>set ws. is_space c \<Longrightarrow> lstrip (ws @ y) = lstrip y"
  unfolding lstrip_def by (simp add: dropWhile_append)

lemma upper_SELECT_chars:
  assumes "upper k = ''SELECT''"
  shows "k \<noteq> [] \<and> \<not> is_space (hd k) \<and> \<not> is_space (last k) \<and> last k \<noteq> CHR '';''
    \<and> (\<forall>c\<in>set k. upper_char c \<in> set ''SELECT'')"
proof -
  from assms have ne: "k \<noteq> []" by (auto simp: upper_def)
  have all: "\<forall>c\<in>set k. upper_char c \<in> set ''SELECT''"
  proof
    fix c assume "c \<in> set k"
    then have "upper_char c \<in> set (upper k)" by (simp add: upper_def)
    with assms show "upper_char c \<in> set ''SELECT''" by simp
  qed
  have ns: "\<And>c. upper_char c \<in> set ''SELECT'' \<Longrightarrow> \<not> is_space c \<and> c \<noteq> CHR '';''"
  proof -
    fix c assume c: "upper_char c \<in> set ''SELECT''"
    have "\<not> is_space (upper_char c)" using c by (auto simp: is_space_def code_def)
    moreover have "c = CHR '';'' \<Longrightarrow> False" using c by (auto simp: char_eval)
    ultimately show "\<not> is_space c \<and> c \<noteq> CHR '';''" by (auto simp: is_space_upper)
  qed
  from ne have "hd k \<in> set k" "last k \<in> set k" by simp_all
  with all ns ne show ?thesis by blast
qed

lemma select_shape:
  "prefix ''SELECT'' (strip (upper x))
   \<longleftrightarrow> (\<exists>ws k rest. x = ws @ k @ rest \<and> (\<forall>c\<in>set ws. is_space c) \<and> upper k = ''SELECT'')"
proof
  assume p: "prefix ''SELECT'' (strip (upper x))"
  have "prefix (strip (upper x)) (lstrip (upper x))"
    unfolding strip_def by (rule rstrip_prefix)
  with p have "prefix ''SELECT'' (upper (lstrip x))"
    by (metis lstrip_upper prefix_order.order_trans)
  then obtain z where z: "map upper_char (lstrip x) = ''SELECT'' @ z"
    by (auto simp: prefix_def upper_def)
  then have "upper (take 6 (lstrip x)) = ''SELECT''"
    by (simp add: upper_def take_map[symmetric])
  moreover obtain ws where "x = ws @ lstrip x" "\<forall>c\<in>set ws. is_space c"
    using lstrip_decomp by blast
  ultimately have "x = ws @ take 6 (lstrip x) @ drop 6 (lstrip x)
      \<and> (\<forall>c\<in>set ws. is_space c) \<and> upper (take 6 (lstrip x)) = ''SELECT''"
    by simp
  then show "\<exists>ws k rest. x = ws @ k @ rest \<and> (\<forall>c\<in>set ws. is_space c) \<and> upper k = ''SELECT''"
    by blast
next
  assume "\<exists>ws k rest. x = ws @ k @ rest \<and> (\<forall>c\<in>set ws. is_space c) \<and> upper k = ''SELECT''"
  then obtain ws k rest where x: "x = ws @ k @ rest" "\<forall>c\<in>set ws. is_space c"
    and k: "upper k = ''SELECT''" by blast
  have "lstrip (upper x) = upper (lstrip (k @ rest))"
    using x by (simp add: lstrip_upper lstrip_spaces)
  also have "lstrip (k @ rest) = k @ rest"
    using upper_SELECT_chars[OF k] by (cases k) (auto simp: lstrip_def)
  finally have "strip (upper x) = rstrip (''SELECT'' @ upper rest)"
    using k by (simp add: strip_def upper_append)
  also have "\<dots> = ''SELECT'' @ rstrip (upper rest)"
    by (rule rstrip_append) (simp_all add: is_space_def code_def)
  finally show "prefix ''SELECT'' (strip (upper x))" by simp
qed

section \<open>Forbidden tokens across a seam\<close>

lemma sublist_separator:
  assumes "c \<notin> set tok"
  shows "sublist tok (a @ c # b) \<longleftrightarrow> sublist tok a \<or> sublist tok b"
proof
  assume "sublist tok (a @ c # b)"
  then consider "sublist tok a" | "sublist tok (c # b)"
    | t1 t2 where "tok = t1 @ t2" "suffix t1 a" "prefix t2 (c # b)"
    by (auto simp: sublist_append)
  then show "sublist tok a \<or> sublist tok b"
  proof cases
    case 1
    then show ?thesis by simp
  next
    case 2
    then have "prefix tok (c # b) \<or> sublist tok b" by (simp add: sublist_Cons_right)
    moreover have "prefix tok (c # b) \<Longrightarrow> tok = []"
      using assms by (cases tok) auto
    ultimately show ?thesis by auto
  next
    case 3
    have "t2 = []" using 3(1,3) assms by (cases t2) auto
    with 3 have "suffix tok a" by simp
    then show ?thesis by (auto simp: suffix_imp_sublist)
  qed
next
  assume "sublist tok a \<or> sublist tok b"
  then show "sublist tok (a @ c # b)"
    by (auto simp: sublist_append sublist_Cons_right)
qed

lemma any_in_forbidden_separator:
  assumes "\<forall>tok\<in>set forbidden. c \<notin> set tok"
  shows "any_in forbidden (a @ c # b) \<longleftrightarrow> any_in forbidden a \<or> any_in forbidden b"
  using assms by (auto simp: any_in_sublist sublist_separator)

lemma separators:
  "\<forall>tok\<in>set forbidden. CHR '' '' \<notin> set tok"
  "\<forall>tok\<in>set forbidden. CHR 0x27 \<notin> set tok"
  "\<forall>tok\<in>set forbidden. CHR '';'' \<notin> set tok"
  by (simp_all add: forbidden_def)

lemma any_in_forbidden_mono:
  "any_in forbidden a \<Longrightarrow> any_in forbidden (p @ a @ q)"
  unfolding any_in_sublist
  by (meson sublist_appendI sublist_order.order_trans)

lemma forbidden_seam:
  assumes "tok \<in> set forbidden" "tok = t1 @ t2" "t1 \<noteq> []" "t2 \<noteq> []"
  shows "(is_upper (last t1) \<and> is_upper (hd t2)) \<or> (last t1 = CHR ''-'' \<and> hd t2 = CHR ''-'')"
proof -
  have up: "\<forall>c\<in>set tok. is_upper c \<or> tok = ''--''"
    using assms(1) by (auto simp: forbidden_def is_upper_def code_def)
  show ?thesis
  proof (cases "tok = ''--''")
    case True
    with assms(2,3,4) have "t1 = ''-'' \<and> t2 = ''-''"
      by (cases t1; cases t2) (auto simp: Cons_eq_append_conv)
    then show ?thesis by simp
  next
    case False
    with up have "\<forall>c\<in>set tok. is_upper c" by blast
    moreover have "last t1 \<in> set tok" "hd t2 \<in> set tok" using assms(2,3,4) by auto
    ultimately show ?thesis by blast
  qed
qed

lemma any_in_forbidden_append:
  assumes "any_in forbidden (a @ b)"
  shows "any_in forbidden a \<or> any_in forbidden b
     \<or> (a \<noteq> [] \<and> b \<noteq> [] \<and> ((is_upper (last a) \<and> is_upper (hd b))
           \<or> (last a = CHR ''-'' \<and> hd b = CHR ''-'')))"
proof -
  from assms obtain tok where tok: "tok \<in> set forbidden" "sublist tok (a @ b)"
    by (auto simp: any_in_sublist)
  then consider "sublist tok a" | "sublist tok b"
    | t1 t2 where "tok = t1 @ t2" "suffix t1 a" "prefix t2 b"
    by (auto simp: sublist_append)
  then show ?thesis
  proof cases
    case 1
    with tok(1) show ?thesis by (auto simp: any_in_sublist)
  next
    case 2
    with tok(1) show ?thesis by (auto simp: any_in_sublist)
  next
    case 3
    show ?thesis
    proof (cases "t1 = [] \<or> t2 = []")
      case True
      with 3 have "sublist tok a \<or> sublist tok b"
        by (auto simp: suffix_imp_sublist prefix_imp_sublist)
      with tok(1) show ?thesis by (auto simp: any_in_sublist)
    next
      case False
      then have n: "t1 \<noteq> []" "t2 \<noteq> []" by simp_all
      from 3(2) n(1) have la: "a \<noteq> [] \<and> last a = last t1" by (auto simp: suffix_def)
      from 3(3) n(2) have hb: "b \<noteq> [] \<and> hd b = hd t2" by (auto simp: prefix_def)
      from forbidden_seam[OF tok(1) 3(1) n] la hb show ?thesis by simp
    qed
  qed
qed

section \<open>Substitution keeps a statement valid\<close>

lemma valid_sql_iff2:
  "valid_sql x \<longleftrightarrow> prefix ''SELECT'' (strip (upper x)) \<and> \<not> any_in forbidden (upper x)"
  unfolding valid_sql_iff by (auto simp: upper_def strip_def lstrip_def rstrip_def)

lemma re_sub_context:
  assumes "\<And>s n pre. m s = Some n \<Longrightarrow> P (pre @ upper s)
             \<Longrightarrow> 0 < n \<and> P (pre @ upper R @ upper (drop n s))"
    and "P (pre @ upper s)"
  shows "P (pre @ upper (re_sub m R s))"
  using assms
proof (induction m R s arbitrary: pre rule: re_sub.induct)
  case (1 m repl)
  then show ?case by simp
next
  case (2 m repl c cs)
  show ?case
  proof (cases "m (c # cs)")
    case None
    have "P ((pre @ [upper_char c]) @ upper cs)"
      using "2.prems"(2) by (simp add: upper_def)
    then have "P ((pre @ [upper_char c]) @ upper (re_sub m repl cs))"
      using "2.IH"(1)[OF None] "2.prems"(1) by blast
    then show ?thesis using None by (simp add: upper_def)
  next
    case (Some n)
    from "2.prems"(1)[OF Some "2.prems"(2)]
    have n: "0 < n" and p: "P (pre @ upper repl @ upper (drop n (c # cs)))" by simp_all
    from n have d: "drop n (c # cs) = drop (n - 1) cs" by (cases n) simp_all
    have "P ((pre @ upper repl) @ upper (drop (n - 1) cs))" using p d by simp
    then have "P ((pre @ upper repl) @ upper (re_sub m repl (drop (n - 1) cs)))"
      using "2.IH"(2)[OF Some] "2.prems"(1) by blast
    then show ?thesis using Some by (simp add: upper_append)
  qed
qed

lemma re_sub_skip:
  assumes "\<And>s n. m s = Some n \<Longrightarrow> s \<noteq> [] \<and> st (hd s)" and "\<forall>c\<in>set p. \<not> st c"
  shows "re_sub m R (p @ t) = p @ re_sub m R t"
  using assms(2)
proof (induction p)
  case Nil
  then show ?case by simp
next
  case (Cons c p)
  have "m (c # p @ t) = None"
  proof (cases "m (c # p @ t)")
    case (Some n)
    from assms(1)[OF Some] Cons.prems show ?thesis by simp
  qed simp
  with Cons show ?case by simp
qed

lemma re_sub_shape:
  assumes "prefix ''SELECT'' (strip (upper x))"
    and "\<And>s n. m s = Some n \<Longrightarrow> s \<noteq> [] \<and> st (hd s)"
    and "\<And>c. st c \<Longrightarrow> \<not> is_space c \<and> upper_char c \<notin> set ''SELECT''"
  shows "prefix ''SELECT'' (strip (upper (re_sub m R x)))"
proof -
  from assms(1) obtain ws k rest where x: "x = ws @ k @ rest" "\<forall>c\<in>set ws. is_space c"
    and k: "upper k = ''SELECT''" unfolding select_shape by blast
  have nst: "\<forall>c\<in>set (ws @ k). \<not> st c"
    using x(2) upper_SELECT_chars[OF k] assms(3) by auto
  have "re_sub m R ((ws @ k) @ rest) = (ws @ k) @ re_sub m R rest"
    using assms(2) nst by (rule re_sub_skip[where st = st])
  then have "re_sub m R x = ws @ k @ re_sub m R rest" using x(1) by simp
  with x(2) k show ?thesis unfolding select_shape by blast
qed

subsection \<open>Keyword followed by an identifier\<close>

lemma match_kw_ident_Some:
  assumes "match_kw_ident kw s = Some n"
  shows "\<exists>K sp w rest. s = K @ sp @ w @ rest \<and> lower K = lower kw \<and> sp \<noteq> []
     \<and> (\<forall>c\<in>set sp. is_space c) \<and> w \<noteq> [] \<and> (\<forall>c\<in>set w. is_word c)
     \<and> (rest = [] \<or> \<not> is_word (hd rest)) \<and> n = length K + length sp + length w"
proof -
  define r where "r = drop (length kw) s"
  define sp where "sp = takeWhile is_space r"
  define w where "w = takeWhile is_word (dropWhile is_space r)"
  define rest where "rest = dropWhile is_word (dropWhile is_space r)"
  from assms have ci: "starts_ci kw s" and sp: "sp \<noteq> []" and w: "w \<noteq> []"
    and n: "n = length kw + length sp + length w"
    by (auto simp: match_kw_ident_def Let_def r_def sp_def w_def split: if_splits)
  from ci have K: "lower (take (length kw) s) = lower kw" "length (take (length kw) s) = length kw"
    by (simp_all add: starts_ci_def)
  have "s = take (length kw) s @ r" by (simp add: r_def)
  also have "r = sp @ dropWhile is_space r" by (simp add: sp_def)
  also have "dropWhile is_space r = w @ rest" by (simp add: w_def rest_def)
  finally have s: "s = take (length kw) s @ sp @ w @ rest" .
  have "rest = [] \<or> \<not> is_word (hd rest)"
    unfolding rest_def using hd_dropWhile by blast
  moreover have "\<forall>c\<in>set sp. is_space c" "\<forall>c\<in>set w. is_word c"
    unfolding sp_def w_def by (auto dest: set_takeWhileD)
  ultimately show ?thesis using s K sp w n by metis
qed

lemma match_kw_ident_start:
  assumes "match_kw_ident (k # ks) s = Some n"
  shows "s \<noteq> [] \<and> lower_char (hd s) = lower_char k"
proof -
  from assms have "starts_ci (k # ks) s"
    by (auto simp: match_kw_ident_def split: if_splits)
  then show ?thesis by (cases s) (auto simp: starts_ci_def lower_def)
qed

lemma kw_ident_step:
  assumes m: "match_kw_ident kw s = Some n"
    and ok: "\<not> any_in forbidden (pre @ upper s)"
    and R: "upper R = upper kw @ '' '' @ I"
    and I: "\<not> any_in forbidden I" "I \<noteq> []" "last I \<noteq> CHR ''-''"
  shows "0 < n \<and> \<not> any_in forbidden (pre @ upper R @ upper (drop n s))"
proof -
  from match_kw_ident_Some[OF m] obtain K sp w rest where
    s: "s = K @ sp @ w @ rest" and K: "lower K = lower kw" and sp: "sp \<noteq> []"
    and rest: "rest = [] \<or> \<not> is_word (hd rest)" and n: "n = length K + length sp + length w"
    by blast
  have d: "drop n s = rest" using s n by simp
  have uK: "upper K = upper kw" using K by (rule lower_eq_upper_eq)
  have a: "\<not> any_in forbidden (pre @ upper kw)"
  proof
    assume "any_in forbidden (pre @ upper kw)"
    then have "any_in forbidden ([] @ (pre @ upper kw) @ upper (sp @ w @ rest))"
      by (rule any_in_forbidden_mono)
    with ok s uK show False by (simp add: upper_append)
  qed
  have b: "\<not> any_in forbidden (I @ upper rest)"
  proof
    assume "any_in forbidden (I @ upper rest)"
    then consider "any_in forbidden I" | "any_in forbidden (upper rest)"
      | "upper rest \<noteq> []" "(is_upper (last I) \<and> is_upper (hd (upper rest)))
           \<or> (last I = CHR ''-'' \<and> hd (upper rest) = CHR ''-'')"
      using any_in_forbidden_append by blast
    then show False
    proof cases
      case 1
      with I(1) show False by simp
    next
      case 2
      then have "any_in forbidden ((pre @ upper (K @ sp @ w)) @ upper rest @ [])"
        by (rule any_in_forbidden_mono)
      with ok s show False by (simp add: upper_append)
    next
      case 3
      from 3(1) have ne: "rest \<noteq> []" by (simp add: upper_def)
      with rest have "\<not> is_word (hd rest)" by simp
      then have "upper_char (hd rest) = hd rest" "\<not> is_upper (hd rest)"
        using not_word_upper by simp_all
      moreover have "hd (upper rest) = upper_char (hd rest)"
        using ne by (simp add: upper_def hd_map)
      ultimately show False using 3(2) I(3) by simp
    qed
  qed
  have "\<not> any_in forbidden ((pre @ upper kw) @ CHR '' '' # (I @ upper rest))"
    using a b any_in_forbidden_separator[OF separators(1), of "pre @ upper kw" "I @ upper rest"]
    by blast
  then have "\<not> any_in forbidden (pre @ upper R @ upper (drop n s))"
    using R d by simp
  moreover have "0 < n" using n sp by simp
  ultimately show ?thesis by simp
qed

lemma kw_start_ok:
  assumes "\<not> is_space x" "upper_char x \<notin> set ''SELECT''" "lower_char c = x"
  shows "\<not> is_space c \<and> upper_char c \<notin> set ''SELECT''"
proof -
  have "upper_char c = upper_char x" using assms(3) upper_lower_char by metis
  moreover have "is_space c \<Longrightarrow> lower_char c = c"
    by (auto simp: lower_char_def is_upper_def is_space_def)
  ultimately show ?thesis using assms by auto
qed

lemma valid_kw_ident:
  assumes v: "valid_sql x"
    and R: "upper R = upper (k # ks) @ '' '' @ I"
    and I: "\<not> any_in forbidden I" "I \<noteq> []" "last I \<noteq> CHR ''-''"
    and k: "\<not> is_space (lower_char k)" "upper_char (lower_char k) \<notin> set ''SELECT''"
  shows "valid_sql (re_sub (match_kw_ident (k # ks)) R x)"
proof -
  from v have sh: "prefix ''SELECT'' (strip (upper x))" and ok: "\<not> any_in forbidden ([] @ upper x)"
    by (simp_all add: valid_sql_iff2)
  have "\<not> any_in forbidden ([] @ upper (re_sub (match_kw_ident (k # ks)) R x))"
    using kw_ident_step[OF _ _ R I] ok
    by (rule re_sub_context[where P = "\<lambda>u. \<not> any_in forbidden u"])
  moreover have "prefix ''SELECT'' (strip (upper (re_sub (match_kw_ident (k # ks)) R x)))"
    using sh
  proof (rule re_sub_shape[where st = "\<lambda>c. lower_char c = lower_char k"])
    show "\<And>s n. match_kw_ident (k # ks) s = Some n \<Longrightarrow> s \<noteq> [] \<and> lower_char (hd s) = lower_char k"
      by (rule match_kw_ident_start)
    show "\<And>c. lower_char c = lower_char k \<Longrightarrow> \<not> is_space c \<and> upper_char c \<notin> set ''SELECT''"
      using kw_start_ok[OF k] by blast
  qed
  ultimately show ?thesis by (simp add: valid_sql_iff2)
qed

lemma valid_fix_table: "valid_sql x \<Longrightarrow> valid_sql (fix_table x)"
  unfolding fix_table_def
  by (rule valid_kw_ident[where I = "''TICKETDETAILS''"]) (simp_all add: eval)

lemma valid_fix_where: "valid_sql x \<Longrightarrow> valid_sql (fix_where x)"
  unfolding fix_where_def
  by (rule valid_kw_ident[where I = "''TICKETSTATUS''"]) (simp_all add: eval)

subsection \<open>Quoted status values\<close>

lemma match_quoted_Some:
  assumes "match_quoted k s = Some n"
  shows "s \<noteq> [] \<and> is_quote (hd s) \<and> 0 < n"
  using assms by (cases s) (auto simp: match_quoted_def split: if_splits)

lemma quoted_step:
  assumes m: "match_quoted k s = Some n"
    and ok: "\<not> any_in forbidden (pre @ upper s)"
    and v: "\<not> any_in forbidden (upper v)"
  shows "0 < n \<and> \<not> any_in forbidden (pre @ upper ([CHR 0x27] @ v @ [CHR 0x27]) @ upper (drop n s))"
proof -
  have q: "upper_char (CHR 0x27) = CHR 0x27" by (simp add: char_eval)
  have a: "\<not> any_in forbidden pre"
  proof
    assume "any_in forbidden pre"
    then have "any_in forbidden ([] @ pre @ upper s)" by (rule any_in_forbidden_mono)
    with ok show False by simp
  qed
  have b: "\<not> any_in forbidden (upper (drop n s))"
  proof
    assume "any_in forbidden (upper (drop n s))"
    then have "any_in forbidden ((pre @ upper (take n s)) @ upper (drop n s) @ [])"
      by (rule any_in_forbidden_mono)
    moreover have "upper s = upper (take n s) @ upper (drop n s)"
      by (metis append_take_drop_id upper_append)
    ultimately show False using ok by simp
  qed
  have "\<not> any_in forbidden (upper v @ CHR 0x27 # upper (drop n s))"
    using v b any_in_forbidden_separator[OF separators(2), of "upper v" "upper (drop n s)"] by blast
  then have "\<not> any_in forbidden (pre @ CHR 0x27 # (upper v @ CHR 0x27 # upper (drop n s)))"
    using a any_in_forbidden_separator[OF separators(2), of pre "upper v @ CHR 0x27 # upper (drop n s)"]
    by blast
  then have "\<not> any_in forbidden (pre @ upper ([CHR 0x27] @ v @ [CHR 0x27]) @ upper (drop n s))"
    by (simp add: upper_def q)
  with match_quoted_Some[OF m] show ?thesis by simp
qed

lemma valid_quoted:
  assumes v: "valid_sql x" and val: "\<not> any_in forbidden (upper v)"
  shows "valid_sql (re_sub (match_quoted k) ([CHR 0x27] @ v @ [CHR 0x27]) x)"
proof -
  from v have sh: "prefix ''SELECT'' (strip (upper x))" and ok: "\<not> any_in forbidden ([] @ upper x)"
    by (simp_all add: valid_sql_iff2)
  have "\<not> any_in forbidden ([] @ upper (re_sub (match_quoted k) ([CHR 0x27] @ v @ [CHR 0x27]) x))"
    using quoted_step[OF _ _ val] ok
    by (rule re_sub_context[where P = "\<lambda>u. \<not> any_in forbidden u"])
  moreover have "prefix ''SELECT'' (strip (upper (re_sub (match_quoted k) ([CHR 0x27] @ v @ [CHR 0x27]) x)))"
    using sh
  proof (rule re_sub_shape[where st = is_quote])
    show "\<And>s n. match_quoted k s = Some n \<Longrightarrow> s \<noteq> [] \<and> is_quote (hd s)"
      using match_quoted_Some by blast
    show "\<And>c. is_quote c \<Longrightarrow> \<not> is_space c \<and> upper_char c \<notin> set ''SELECT''"
      by (auto simp: char_eval)
  qed
  ultimately show ?thesis by (simp add: valid_sql_iff2)
qed

lemma valid_status_fold:
  assumes "\<forall>(k, v)\<in>set M. \<not> any_in forbidden (upper v)" "valid_sql x"
  shows "valid_sql (foldl (\<lambda>s (k, v). re_sub (match_quoted k) ([CHR 0x27] @ v @ [CHR 0x27]) s) x M)"
  using assms
proof (induction M arbitrary: x)
  case Nil
  then show ?case by simp
next
  case (Cons e M)
  obtain k v where e: "e = (k, v)" by (cases e)
  with Cons.prems have "valid_sql (re_sub (match_quoted k) ([CHR 0x27] @ v @ [CHR 0x27]) x)"
    by (intro valid_quoted) auto
  with Cons e show ?case by simp
qed

lemma valid_fix_status: "valid_sql x \<Longrightarrow> valid_sql (fix_status x)"
  unfolding fix_status_def
  by (rule valid_status_fold) (simp_all add: eval)

subsection \<open>Cap, terminator and trimming\<close>

lemma valid_ensure_limit:
  assumes "valid_sql x"
  shows "valid_sql (ensure_limit x)"
proof (cases "ensure_limit x = x")
  case True
  with assms show ?thesis by simp
next
  case False
  then have e: "ensure_limit x = rstrip_chars '';'' x @ '' LIMIT 50''"
    by (auto simp: ensure_limit_def split: if_splits)
  from assms obtain ws k rest where x: "x = ws @ k @ rest" "\<forall>c\<in>set ws. is_space c"
    and k: "upper k = ''SELECT''" and ok: "\<not> any_in forbidden (upper x)"
    unfolding valid_sql_iff2 select_shape by blast
  have "rstrip_chars '';'' ((ws @ k) @ rest) = (ws @ k) @ rstrip_chars '';'' rest"
    using upper_SELECT_chars[OF k] by (intro rstrip_chars_append) auto
  then have r: "rstrip_chars '';'' x = ws @ k @ rstrip_chars '';'' rest" using x(1) by simp
  then have "ensure_limit x = ws @ k @ (rstrip_chars '';'' rest @ '' LIMIT 50'')"
    using e by simp
  then have sh: "prefix ''SELECT'' (strip (upper (ensure_limit x)))"
    using x(2) k unfolding select_shape by blast
  obtain n where n: "x = rstrip_chars '';'' x @ replicate n (CHR '';'')"
    using rstrip_chars_decomp by blast
  have a: "\<not> any_in forbidden (upper (rstrip_chars '';'' x))"
  proof
    assume "any_in forbidden (upper (rstrip_chars '';'' x))"
    then have "any_in forbidden ([] @ upper (rstrip_chars '';'' x) @ upper (replicate n (CHR '';'')))"
      by (rule any_in_forbidden_mono)
    then have "any_in forbidden (upper (rstrip_chars '';'' x @ replicate n (CHR '';'')))"
      by (simp add: upper_append)
    with n ok show False by simp
  qed
  have b: "\<not> any_in forbidden ''LIMIT 50''" by (simp add: eval)
  have "\<not> any_in forbidden (upper (rstrip_chars '';'' x) @ CHR '' '' # ''LIMIT 50'')"
    using a b any_in_forbidden_separator[OF separators(1), of "upper (rstrip_chars '';'' x)" "''LIMIT 50''"]
    by blast
  moreover have "upper '' LIMIT 50'' = '' LIMIT 50''" by (simp add: eval)
  ultimately have "\<not> any_in forbidden (upper (ensure_limit x))"
    using e by (simp add: upper_append)
  with sh show ?thesis by (simp add: valid_sql_iff2)
qed

lemma valid_snoc_semicolon:
  assumes "valid_sql x"
  shows "valid_sql (x @ '';'')"
proof -
  from assms obtain ws k rest where x: "x = ws @ k @ rest" "\<forall>c\<in>set ws. is_space c"
    and k: "upper k = ''SELECT''" and ok: "\<not> any_in forbidden (upper x)"
    unfolding valid_sql_iff2 select_shape by blast
  from x(1) have "x @ '';'' = ws @ k @ (rest @ '';'')" by simp
  then have sh: "prefix ''SELECT'' (strip (upper (x @ '';'')))"
    using x(2) k unfolding select_shape by blast
  have "\<not> any_in forbidden []" by (simp add: eval)
  then have "\<not> any_in forbidden (upper x @ CHR '';'' # [])"
    using ok any_in_forbidden_separator[OF separators(3), of "upper x" "[]"] by blast
  moreover have "upper (x @ '';'') = upper x @ '';''" by (simp add: upper_def char_eval)
  ultimately show ?thesis using sh by (simp add: valid_sql_iff2)
qed

lemma valid_ensure_semicolon: "valid_sql x \<Longrightarrow> valid_sql (ensure_semicolon x)"
  using ensure_semicolon_cases[of x] valid_snoc_semicolon by auto

lemma valid_strip:
  assumes "valid_sql x"
  shows "valid_sql (strip x)"
proof -
  from assms obtain ws k rest where x: "x = ws @ k @ rest" "\<forall>c\<in>set ws. is_space c"
    and k: "upper k = ''SELECT''" and ok: "\<not> any_in forbidden (upper x)"
    unfolding valid_sql_iff2 select_shape by blast
  note kc = upper_SELECT_chars[OF k]
  have "lstrip x = lstrip (k @ rest)" using x by (simp add: lstrip_spaces)
  also have "\<dots> = k @ rest" using kc by (cases k) (auto simp: lstrip_def)
  finally have "strip x = rstrip (k @ rest)" by (simp add: strip_def)
  also have "\<dots> = k @ rstrip rest" using kc by (intro rstrip_append) auto
  finally have s: "strip x = [] @ k @ rstrip rest" by simp
  have sh: "prefix ''SELECT'' (strip (upper (strip x)))"
    unfolding select_shape using s k by (metis empty_iff list.set(1))
  obtain p q where "x = p @ strip x @ q" using strip_decomp by blast
  then have "upper x = upper p @ upper (strip x) @ upper q" by (metis upper_append)
  then have "any_in forbidden (upper (strip x)) \<Longrightarrow> any_in forbidden (upper x)"
    using any_in_forbidden_mono by metis
  with ok sh show ?thesis by (auto simp: valid_sql_iff2)
qed

lemma valid_nonempty: "valid_sql x \<Longrightarrow> x \<noteq> []"
  by (auto simp: valid_sql_def)

lemma valid_repair_sql: "valid_sql x \<Longrightarrow> valid_sql (repair_sql x)"
  by (simp add: repair_sql_unfold valid_nonempty valid_fix_table valid_fix_where valid_fix_status
      valid_ensure_limit valid_ensure_semicolon)

section \<open>The shortcut templates\<close>

lemma match_inc_digits:
  assumes "match_inc s = Some d"
  shows "d \<noteq> [] \<and> (\<forall>c\<in>set d. is_digit c)"
  using assms
  by (auto simp: match_inc_def Let_def split: if_splits list.splits dest: set_takeWhileD)

lemma forbidden_not_digits:
  assumes "tok \<in> set forbidden"
  shows "\<exists>c\<in>set tok. \<not> is_digit c"
  using assms by (auto simp: forbidden_def is_digit_def code_def)

lemma digits_not_forbidden:
  assumes "\<forall>c\<in>set d. is_digit c"
  shows "\<not> any_in forbidden d"
proof
  assume "any_in forbidden d"
  then obtain tok where t: "tok \<in> set forbidden" "sublist tok d" by (auto simp: any_in_sublist)
  then have "set tok \<subseteq> set d" using set_mono_sublist by blast
  with assms forbidden_not_digits[OF t(1)] show False by blast
qed

lemma upper_digits: "\<forall>c\<in>set d. is_digit c \<Longrightarrow> upper d = d"
  unfolding upper_def by (induction d) (simp_all add: digit_upper)

lemma incident_template:
  assumes "\<forall>c\<in>set d. is_digit c"
  shows "valid_sql (''SELECT TicketStatus FROM '' @ TABLE_NAME @ '' WHERE IncidentID=''
            @ [CHR 0x27] @ d @ [CHR 0x27] @ '';'')
    \<and> strip (''SELECT TicketStatus FROM '' @ TABLE_NAME @ '' WHERE IncidentID=''
            @ [CHR 0x27] @ d @ [CHR 0x27] @ '';'')
       = ''SELECT TicketStatus FROM '' @ TABLE_NAME @ '' WHERE IncidentID=''
            @ [CHR 0x27] @ d @ [CHR 0x27] @ '';''"
proof -
  define P where "P = '' TicketStatus FROM '' @ TABLE_NAME @ '' WHERE IncidentID=''"
  define s where "s = ''SELECT'' @ P @ CHR 0x27 # d @ CHR 0x27 # '';''"
  have s: "''SELECT TicketStatus FROM '' @ TABLE_NAME @ '' WHERE IncidentID=''
            @ [CHR 0x27] @ d @ [CHR 0x27] @ '';'' = s"
    by (simp add: s_def P_def)
  have "s = [] @ ''SELECT'' @ (P @ CHR 0x27 # d @ CHR 0x27 # '';'')" by (simp add: s_def)
  moreover have "upper ''SELECT'' = ''SELECT''" by (simp add: eval)
  ultimately have sh: "prefix ''SELECT'' (strip (upper s))"
    unfolding select_shape by (metis empty_iff list.set(1))
  have uP: "\<not> any_in forbidden (upper (''SELECT'' @ P))" by (simp add: P_def eval)
  have "\<not> any_in forbidden '';''" by (simp add: eval)
  then have "\<not> any_in forbidden (d @ CHR 0x27 # '';'')"
    using digits_not_forbidden[OF assms] any_in_forbidden_separator[OF separators(2), of d "'';''"]
    by blast
  then have "\<not> any_in forbidden (upper (''SELECT'' @ P) @ CHR 0x27 # (d @ CHR 0x27 # '';''))"
    using uP any_in_forbidden_separator[OF separators(2), of "upper (''SELECT'' @ P)" "d @ CHR 0x27 # '';''"]
    by blast
  moreover have "upper s = upper (''SELECT'' @ P) @ CHR 0x27 # (d @ CHR 0x27 # '';'')"
  proof -
    have "upper s = upper (''SELECT'' @ P) @ upper [CHR 0x27] @ upper d @ upper [CHR 0x27] @ upper '';''"
      unfolding s_def by (simp add: upper_def)
    moreover have "upper [CHR 0x27] = [CHR 0x27]" "upper '';'' = '';''"
      by (simp_all add: upper_def char_eval)
    ultimately show ?thesis by (simp add: upper_digits[OF assms])
  qed
  ultimately have v: "valid_sql s" using sh by (simp add: valid_sql_iff2)
  have "lstrip s = s" by (simp add: s_def lstrip_def is_space_def code_def)
  moreover have "rstrip ((''SELECT'' @ P @ CHR 0x27 # d @ [CHR 0x27]) @ [CHR '';'']) =
      (''SELECT'' @ P @ CHR 0x27 # d @ [CHR 0x27]) @ [CHR '';'']"
    by (rule rstrip_snoc) (rule semicolon_not_space)
  ultimately have "strip s = s" by (simp add: strip_def s_def)
  with v s show ?thesis by simp
qed

lemma pending_template:
  "valid_sql (''SELECT COUNT(*) AS total_pending FROM '' @ TABLE_NAME @ '' WHERE TicketStatus='Pending';'')
   \<and> strip (''SELECT COUNT(*) AS total_pending FROM '' @ TABLE_NAME @ '' WHERE TicketStatus='Pending';'')
     = ''SELECT COUNT(*) AS total_pending FROM '' @ TABLE_NAME @ '' WHERE TicketStatus='Pending';''"
  by (simp add: eval)

lemma open_template:
  "valid_sql (''SELECT IncidentID, TicketStatus, AssignPerson FROM '' @ TABLE_NAME
       @ '' WHERE TicketStatus IN ('Open','In Progress','Assign to Group') ORDER BY id DESC LIMIT 50;'')
   \<and> strip (''SELECT IncidentID, TicketStatus, AssignPerson FROM '' @ TABLE_NAME
       @ '' WHERE TicketStatus IN ('Open','In Progress','Assign to Group') ORDER BY id DESC LIMIT 50;'')
     = ''SELECT IncidentID, TicketStatus, AssignPerson FROM '' @ TABLE_NAME
       @ '' WHERE TicketStatus IN ('Open','In Progress','Assign to Group') ORDER BY id DESC LIMIT 50;''"
  by (simp add: eval)

lemma latest_template:
  "valid_sql (''SELECT IncidentID, TicketStatus, TicketSubmittedDateTime FROM '' @ TABLE_NAME
       @ '' ORDER BY id DESC LIMIT 50;'')
   \<and> strip (''SELECT IncidentID, TicketStatus, TicketSubmittedDateTime FROM '' @ TABLE_NAME
       @ '' ORDER BY id DESC LIMIT 50;'')
     = ''SELECT IncidentID, TicketStatus, TicketSubmittedDateTime FROM '' @ TABLE_NAME
       @ '' ORDER BY id DESC LIMIT 50;''"
  by (simp add: eval)

lemma new_case_template:
  "valid_sql (''SELECT IncidentID, TicketStatus, TicketSubmittedDateTime FROM '' @ TABLE_NAME
       @ '' WHERE TicketStatus='New' ORDER BY id DESC LIMIT 50;'')
   \<and> strip (''SELECT IncidentID, TicketStatus, TicketSubmittedDateTime FROM '' @ TABLE_NAME
       @ '' WHERE TicketStatus='New' ORDER BY id DESC LIMIT 50;'')
     = ''SELECT IncidentID, TicketStatus, TicketSubmittedDateTime FROM '' @ TABLE_NAME
       @ '' WHERE TicketStatus='New' ORDER BY id DESC LIMIT 50;''"
  by (simp add: eval)

lemma fast_intent_valid:
  assumes "fast_intent q = Some s"
  shows "valid_sql s \<and> strip s = s"
proof -
  consider
    "s = ''SELECT COUNT(*) AS total_pending FROM '' @ TABLE_NAME @ '' WHERE TicketStatus='Pending';''"
  | "s = ''SELECT IncidentID, TicketStatus, AssignPerson FROM '' @ TABLE_NAME
       @ '' WHERE TicketStatus IN ('Open','In Progress','Assign to Group') ORDER BY id DESC LIMIT 50;''"
  | "s = ''SELECT IncidentID, TicketStatus, TicketSubmittedDateTime FROM '' @ TABLE_NAME
       @ '' ORDER BY id DESC LIMIT 50;''"
  | "s = ''SELECT IncidentID, TicketStatus, TicketSubmittedDateTime FROM '' @ TABLE_NAME
       @ '' WHERE TicketStatus='New' ORDER BY id DESC LIMIT 50;''"
  | d where "re_search match_inc (lower q) = Some d"
      "s = ''SELECT TicketStatus FROM '' @ TABLE_NAME @ '' WHERE IncidentID=''
            @ [CHR 0x27] @ d @ [CHR 0x27] @ '';''"
    using assms unfolding fast_intent_def Let_def
    by (auto split: if_splits option.splits)
  then show ?thesis
  proof cases
    case 1
    then show ?thesis using pending_template by simp
  next
    case 2
    then show ?thesis using open_template by simp
  next
    case 3
    then show ?thesis using latest_template by simp
  next
    case 4
    then show ?thesis using new_case_template by simp
  next
    case 5
    from re_search_Some[OF 5(1)] match_inc_digits have "\<forall>c\<in>set d. is_digit c" by blast
    from incident_template[OF this] 5(2) show ?thesis by simp
  qed
qed

section \<open>The statements the generator returns\<close>

lemma llm_generation_valid:
  assumes "llm_generation svc q tr = (Some s, tr')"
  shows "valid_sql s"
  using assms
  by (auto simp: llm_generation_def Let_def valid_repair_sql valid_strip split: if_splits)

lemma body_result:
  assumes "generate_sql_body svc q tr = (r, tr')"
  shows "(\<forall>s. r = Some s \<longrightarrow> valid_sql s) \<and> (\<forall>s. fast_intent q = Some s \<longrightarrow> r = Some s \<and> tr' = tr)"
proof (cases "fast_intent q")
  case None
  with assms llm_generation_valid show ?thesis
    by (auto simp: generate_sql_body_def)
next
  case (Some f)
  from fast_intent_valid[OF Some] have f: "valid_sql f" "strip f = f" by simp_all
  then have "f \<noteq> []" using valid_nonempty by blast
  with assms Some f show ?thesis by (auto simp: generate_sql_body_def)
qed

lemma generate_sql_cache:
  assumes "generate_sql svc q st = (r, st')" "e \<in> set (cache st')"
  shows "e \<in> set (cache st) \<or> (\<exists>tr'. e = (q, r) \<and> generate_sql_body svc q (trace st) = (r, tr'))"
proof (cases "map_of (cache st) q")
  case None
  obtain r0 tr0 where b: "generate_sql_body svc q (trace st) = (r0, tr0)" by force
  with None assms(1) have "r = r0" "cache st' = take lru_maxsize ((q, r) # cache st)"
    by (auto simp: generate_sql_def)
  with assms(2) b show ?thesis by (auto dest: in_set_takeD)
next
  case (Some a)
  with assms(1) have "a = r" "cache st' = (q, r) # filter (\<lambda>e. fst e \<noteq> q) (cache st)"
    by (auto simp: generate_sql_def)
  with assms(2) Some map_of_SomeD[OF Some] show ?thesis by auto
qed

lemma reachable_cache:
  assumes "reachable st" "(k, v) \<in> set (cache st)"
  shows "(\<forall>s. v = Some s \<longrightarrow> valid_sql s) \<and> (\<forall>s. fast_intent k = Some s \<longrightarrow> v = Some s)"
  using assms
proof (induction arbitrary: k v rule: reachable.induct)
  case start
  then show ?case by (simp add: init_state_def)
next
  case (call st svc question r st')
  from generate_sql_cache[OF call.hyps(2) call.prems]
  show ?case
  proof
    assume "(k, v) \<in> set (cache st)"
    then show ?thesis by (rule call.IH)
  next
    assume "\<exists>tr'. (k, v) = (question, r) \<and> generate_sql_body svc question (trace st) = (r, tr')"
    then obtain tr' where "k = question" "v = r" "generate_sql_body svc question (trace st) = (r, tr')"
      by blast
    with body_result show ?thesis by blast
  qed
qed

lemma generate_sql_valid:
  assumes "reachable st" "generate_sql svc q st = (Some s, st')"
  shows "valid_sql s"
proof -
  have "reachable st'" using assms by (rule reachable.call)
  moreover have "(q, Some s) \<in> set (cache st')"
    using generate_sql_stores[OF assms(2)] by (rule map_of_SomeD)
  ultimately show ?thesis using reachable_cache by blast
qed

text \<open>
  Claim C1. In every state the process can reach, a statement returned by
  \<open>generate_sql\<close>, whether it comes from a shortcut template, from the repair of a
  validated candidate or from the cache, begins with \<open>SELECT\<close> in some letter case after
  leading white space, and holds none of \<open>UPDATE\<close>, \<open>DELETE\<close>, \<open>INSERT\<close>, \<open>DROP\<close>,
  \<open>ALTER\<close>, \<open>TRUNCATE\<close> in any letter case and no \<open>--\<close>.
\<close>

theorem generated_statement_safe:
  assumes "reachable st" "generate_sql svc q st = (Some s, st')"
  shows "prefix ''SELECT'' (lstrip (upper s))
     \<and> \<not> sublist ''UPDATE'' (upper s) \<and> \<not> sublist ''DELETE'' (upper s)
     \<and> \<not> sublist ''INSERT'' (upper s) \<and> \<not> sublist ''DROP'' (upper s)
     \<and> \<not> sublist ''ALTER'' (upper s) \<and> \<not> sublist ''TRUNCATE'' (upper s)
     \<and> \<not> sublist ''--'' (upper s)"
proof -
  have v: "valid_sql s" using assms by (rule generate_sql_valid)
  then have "prefix ''SELECT'' (strip (upper s))" by (simp add: valid_sql_iff)
  moreover have "prefix (strip (upper s)) (lstrip (upper s))"
    unfolding strip_def by (rule rstrip_prefix)
  ultimately have "prefix ''SELECT'' (lstrip (upper s))"
    by (rule prefix_order.order_trans)
  moreover from v have "\<forall>tok\<in>set forbidden. \<not> sublist tok (upper s)"
    by (simp add: valid_sql_iff any_in_sublist)
  ultimately show ?thesis by (simp add: forbidden_def)
qed


theorem generated_statement_safe_witness:
  "reachable init_state
   \<and> generate_sql (\<lambda>n p. Response ''select a from t'') ''hi'' init_state
       = (Some ''select a FROM ticketdetails LIMIT 50;'',
          \<lparr>cache = [(''hi'', Some ''select a FROM ticketdetails LIMIT 50;'')],
           trace = [Request (build_prompt ''hi''), Repair ''select a from t'']\<rparr>)
   \<and> prefix ''SELECT'' (lstrip (upper ''select a FROM ticketdetails LIMIT 50;''))
   \<and> \<not> sublist ''DROP'' (upper ''select a FROM ticketdetails LIMIT 50;'')"
proof -
  have h1: "reachable init_state" by (rule reachable.start)
  have f: "fast_intent ''hi'' = None" by (simp add: eval)
  have s: "strip ''select a from t'' = ''select a from t''" by (simp add: eval)
  have c: "clean_sql ''select a from t'' = ''select a from t''" by (simp add: eval)
  have v: "valid_sql ''select a from t''" by (simp add: eval)
  have r: "strip (repair_sql ''select a from t'') = ''select a FROM ticketdetails LIMIT 50;''"
    by (simp add: eval)
  have h2: "generate_sql (\<lambda>n p. Response ''select a from t'') ''hi'' init_state
       = (Some ''select a FROM ticketdetails LIMIT 50;'',
          \<lparr>cache = [(''hi'', Some ''select a FROM ticketdetails LIMIT 50;'')],
           trace = [Request (build_prompt ''hi''), Repair ''select a from t'']\<rparr>)"
    by (simp add: generate_sql_def generate_sql_body_def llm_generation_def call_llm_def
        init_state_def lru_maxsize_def requests_def f s c v r Let_def)
  from h1 h2 generated_statement_safe[OF h1 h2] show ?thesis by blast
qed

section \<open>Shortcuts bypass the generation service\<close>

text \<open>
  Claim C4. In every state the process can reach, a question that one of the five
  shortcut patterns matches gets the shortcut's statement, the result and the next state
  are the same under any two behaviours of the generation service, and the trace gains
  nothing: no request is sent. The question \<open>how many pending tickets\<close> gets the
  pending-count statement.
\<close>

theorem shortcut_bypasses_service:
  assumes "reachable st" "fast_intent q = Some s"
  shows "fst (generate_sql svc1 q st) = Some s
     \<and> generate_sql svc2 q st = generate_sql svc1 q st
     \<and> trace (snd (generate_sql svc1 q st)) = trace st
     \<and> fst (generate_sql svc1 ''how many pending tickets'' st)
         = Some ''SELECT COUNT(*) AS total_pending FROM ticketdetails WHERE TicketStatus='Pending';''"
proof -
  have gen: "\<And>svc q s. fast_intent q = Some s \<Longrightarrow>
      generate_sql svc q st
        = (case map_of (cache st) q of
             Some r \<Rightarrow> (Some s, st\<lparr>cache := (q, Some s) # filter (\<lambda>e. fst e \<noteq> q) (cache st)\<rparr>)
           | None \<Rightarrow> (Some s, \<lparr>cache = take lru_maxsize ((q, Some s) # cache st), trace = trace st\<rparr>))"
  proof -
    fix svc q s assume f: "fast_intent q = Some s"
    show "generate_sql svc q st
        = (case map_of (cache st) q of
             Some r \<Rightarrow> (Some s, st\<lparr>cache := (q, Some s) # filter (\<lambda>e. fst e \<noteq> q) (cache st)\<rparr>)
           | None \<Rightarrow> (Some s, \<lparr>cache = take lru_maxsize ((q, Some s) # cache st), trace = trace st\<rparr>))"
    proof (cases "map_of (cache st) q")
      case None
      obtain r tr where b: "generate_sql_body svc q (trace st) = (r, tr)" by force
      from body_result[OF b] f have "r = Some s" "tr = trace st" by simp_all
      with None b show ?thesis by (simp add: generate_sql_def)
    next
      case (Some r)
      then have "(q, r) \<in> set (cache st)" by (rule map_of_SomeD)
      with reachable_cache[OF assms(1)] f have "r = Some s" by blast
      with Some show ?thesis by (simp add: generate_sql_def)
    qed
  qed
  have p: "fast_intent ''how many pending tickets''
      = Some ''SELECT COUNT(*) AS total_pending FROM ticketdetails WHERE TicketStatus='Pending';''"
    by (simp add: eval)
  have "fst (generate_sql svc1 q st) = Some s"
    and "trace (snd (generate_sql svc1 q st)) = trace st"
    by (simp_all add: gen[OF assms(2)] split: option.splits)
  moreover have "generate_sql svc2 q st = generate_sql svc1 q st"
    by (simp add: gen[OF assms(2)])
  moreover have "fst (generate_sql svc1 ''how many pending tickets'' st)
         = Some ''SELECT COUNT(*) AS total_pending FROM ticketdetails WHERE TicketStatus='Pending';''"
    by (simp add: gen[OF p] split: option.splits)
  ultimately show ?thesis by simp
qed

theorem shortcut_bypasses_service_witness:
  "reachable init_state
   \<and> fast_intent ''status of INC-002'' = Some ''SELECT TicketStatus FROM ticketdetails WHERE IncidentID='002';''
   \<and> fst (generate_sql (\<lambda>n p. Raised) ''status of INC-002'' init_state)
       = Some ''SELECT TicketStatus FROM ticketdetails WHERE IncidentID='002';''
   \<and> generate_sql (\<lambda>n p. Response ''SELECT 1;'') ''status of INC-002'' init_state
       = generate_sql (\<lambda>n p. Raised) ''status of INC-002'' init_state
   \<and> trace (snd (generate_sql (\<lambda>n p. Raised) ''status of INC-002'' init_state)) = trace init_state
   \<and> fst (generate_sql (\<lambda>n p. Raised) ''how many pending tickets'' init_state)
       = Some ''SELECT COUNT(*) AS total_pending FROM ticketdetails WHERE TicketStatus='Pending';''"
proof -
  have h1: "reachable init_state" by (rule reachable.start)
  have h2: "fast_intent ''status of INC-002''
      = Some ''SELECT TicketStatus FROM ticketdetails WHERE IncidentID='002';''"
    by (simp add: eval)
  from h1 h2 shortcut_bypasses_service[OF h1 h2, of "\<lambda>n p. Raised" "\<lambda>n p. Response ''SELECT 1;''"]
  show ?thesis by blast
qed

section \<open>The column rewrite reaches every WHERE clause\<close>

lemma lower_w: "lower_char c = CHR ''w'' \<Longrightarrow> is_word c \<and> \<not> is_space c"
proof (cases "is_upper c")
  case True
  then show ?thesis by (simp add: is_word_def is_space_def is_upper_def)
next
  case False
  assume "lower_char c = CHR ''w''"
  with False have "c = CHR ''w''" by (simp add: lower_char_def)
  then show ?thesis by (simp add: char_eval)
qed

lemma where_accepts:
  "match_kw_ident ''WHERE'' x \<noteq> None \<longleftrightarrow>
     5 \<le> length x \<and> lower (take 5 x) = ''where''
     \<and> takeWhile is_space (drop 5 x) \<noteq> []
     \<and> takeWhile is_word (dropWhile is_space (drop 5 x)) \<noteq> []"
proof -
  have l: "length ''WHERE'' = 5" by simp
  have w: "lower ''WHERE'' = ''where''" by (simp add: lower_def char_eval)
  show ?thesis unfolding match_kw_ident_def starts_ci_def l w Let_def by auto
qed

lemma where_start:
  assumes "match_kw_ident ''WHERE'' x = Some n"
  shows "x \<noteq> [] \<and> lower_char (hd x) = CHR ''w''"
proof -
  have "lower_char (CHR ''W'') = CHR ''w''" by (simp add: char_eval)
  with match_kw_ident_start[OF assms] show ?thesis by simp
qed

lemma where_not_word: "\<not> is_word c \<Longrightarrow> match_kw_ident ''WHERE'' (c # r) = None"
proof (rule ccontr)
  assume n: "\<not> is_word c" and "match_kw_ident ''WHERE'' (c # r) \<noteq> None"
  then obtain k where "match_kw_ident ''WHERE'' (c # r) = Some k" by blast
  from where_start[OF this] lower_w n show False by auto
qed

lemma word_after_spaces:
  assumes "takeWhile is_word (dropWhile is_space (v @ a # z1)) \<noteq> []" "is_word b" "\<not> is_space b"
  shows "takeWhile is_word (dropWhile is_space (v @ b # z2)) \<noteq> []"
  using assms by (induction v) (auto split: if_splits)

lemma spaces_then_word:
  assumes "v \<noteq> []"
    and "takeWhile is_space (v @ a # z1) \<noteq> []"
    and "takeWhile is_word (dropWhile is_space (v @ a # z1)) \<noteq> []"
    and "is_word b" "\<not> is_space b"
  shows "takeWhile is_space (v @ b # z2) \<noteq> []
     \<and> takeWhile is_word (dropWhile is_space (v @ b # z2)) \<noteq> []"
proof -
  from assms(1) obtain x v' where v: "v = x # v'" by (cases v) auto
  with assms(2) have "is_space x" by (auto split: if_splits)
  with v have "takeWhile is_space (v @ b # z2) \<noteq> []" by simp
  with word_after_spaces[OF assms(3,4,5)] show ?thesis by simp
qed

lemma where_swap:
  assumes acc: "match_kw_ident ''WHERE'' (u @ a # z1) \<noteq> None"
    and a: "lower_char a = CHR ''w''" and b: "lower_char b = CHR ''w''" and u: "u \<noteq> []"
  shows "match_kw_ident ''WHERE'' (u @ b # z2) \<noteq> None"
proof -
  from acc[unfolded where_accepts] have len: "5 \<le> length (u @ a # z1)"
    and low: "lower (take 5 (u @ a # z1)) = ''where''"
    and sp: "takeWhile is_space (drop 5 (u @ a # z1)) \<noteq> []"
    and wd: "takeWhile is_word (dropWhile is_space (drop 5 (u @ a # z1))) \<noteq> []"
    by blast+
  have u5: "5 < length u"
  proof (rule ccontr)
    assume "\<not> 5 < length u"
    then consider "length u < 5" | "length u = 5" by linarith
    then show False
    proof cases
      case 1
      then have "lower (take 5 (u @ a # z1)) ! length u = lower_char a"
        by (simp add: lower_def nth_append)
      with low a have "''where'' ! length u = CHR ''w''" by simp
      moreover have "0 < length u" using u by simp
      with 1 have "length u = 1 \<or> length u = 2 \<or> length u = 3 \<or> length u = 4" by linarith
      ultimately show False by auto
    next
      case 2
      then have "drop 5 (u @ a # z1) = a # z1" by simp
      with sp lower_w[OF a] show False by simp
    qed
  qed
  define v where "v = drop 5 u"
  have v: "v \<noteq> []" using u5 by (simp add: v_def)
  have d: "\<And>c z. drop 5 (u @ c # z) = v @ c # z" "\<And>c z. take 5 (u @ c # z) = take 5 u"
    using u5 by (simp_all add: v_def)
  have sp': "takeWhile is_space (v @ a # z1) \<noteq> []" by (rule sp[unfolded d(1)])
  have wd': "takeWhile is_word (dropWhile is_space (v @ a # z1)) \<noteq> []"
    by (rule wd[unfolded d(1)])
  have "takeWhile is_space (v @ b # z2) \<noteq> []
     \<and> takeWhile is_word (dropWhile is_space (v @ b # z2)) \<noteq> []"
    using v sp' wd' conjunct1[OF lower_w[OF b]] conjunct2[OF lower_w[OF b]]
    by (rule spaces_then_word)
  moreover have "5 \<le> length (u @ b # z2)" using u5 by simp
  moreover have "lower (take 5 (u @ b # z2)) = ''where''" using low[unfolded d(2)] by (simp only: d(2))
  ultimately show ?thesis unfolding where_accepts by (simp only: d simp_thms)
qed

lemma where_accept_back:
  assumes "match_kw_ident ''WHERE'' (u @ fix_where t) \<noteq> None"
  shows "match_kw_ident ''WHERE'' (u @ t) \<noteq> None"
  using assms unfolding fix_where_def
proof (induction "match_kw_ident ''WHERE''" "''WHERE TicketStatus''" t arbitrary: u rule: re_sub.induct)
  case 1
  then show ?case by simp
next
  case (2 c cs)
  show ?case
  proof (cases "match_kw_ident ''WHERE'' (c # cs)")
    case None
    with "2.prems" have "match_kw_ident ''WHERE'' ((u @ [c]) @ re_sub (match_kw_ident ''WHERE'') ''WHERE TicketStatus'' cs) \<noteq> None"
      by simp
    then have "match_kw_ident ''WHERE'' ((u @ [c]) @ cs) \<noteq> None"
      using "2.hyps"(1)[OF None] by blast
    then show ?thesis by simp
  next
    case (Some n)
    show ?thesis
    proof (cases "u = []")
      case True
      with Some show ?thesis by simp
    next
      case False
      from Some "2.prems" have "match_kw_ident ''WHERE''
          (u @ CHR ''W'' # (''HERE TicketStatus'' @ re_sub (match_kw_ident ''WHERE'') ''WHERE TicketStatus'' (drop (n - 1) cs))) \<noteq> None"
        by simp
      moreover have "lower_char (CHR ''W'') = CHR ''w''" by (simp add: char_eval)
      moreover have "lower_char c = CHR ''w''" using where_start[OF Some] by simp
      ultimately show ?thesis using False by (rule where_swap)
    qed
  qed
qed

lemma where_copied:
  assumes "match_kw_ident ''WHERE'' (c # cs) = None"
  shows "match_kw_ident ''WHERE'' (c # fix_where cs) = None"
proof (rule ccontr)
  assume "match_kw_ident ''WHERE'' (c # fix_where cs) \<noteq> None"
  then have "match_kw_ident ''WHERE'' ([c] @ fix_where cs) \<noteq> None" by simp
  then have "match_kw_ident ''WHERE'' ([c] @ cs) \<noteq> None" by (rule where_accept_back)
  with assms show False by simp
qed

lemma where_rewritten:
  assumes "x = [] \<or> \<not> is_word (hd x)"
  shows "match_kw_ident ''WHERE'' (''WHERE TicketStatus'' @ x) = Some 18"
proof (cases x)
  case Nil
  then show ?thesis by (simp add: eval)
next
  case (Cons h t)
  with assms have "\<not> is_word h" by simp
  then have "takeWhile is_word (h # t) = []" by simp
  with Cons show ?thesis
    by (simp add: match_kw_ident_def starts_ci_def lower_def char_eval Let_def)
qed

lemma fix_where_head:
  assumes "x = [] \<or> \<not> is_word (hd x)"
  shows "fix_where x = [] \<or> \<not> is_word (hd (fix_where x))"
proof (cases x)
  case Nil
  then show ?thesis by (simp add: fix_where_def)
next
  case (Cons h t)
  with assms have "\<not> is_word h" by simp
  then have "match_kw_ident ''WHERE'' (h # t) = None" by (rule where_not_word)
  with Cons \<open>\<not> is_word h\<close> show ?thesis by (simp add: fix_where_def)
qed

lemma inner_not_w: "c \<in> set ''HERE TicketStatus'' \<Longrightarrow> lower_char c \<noteq> CHR ''w''"
  by (auto simp: char_eval)

lemma where_clauses_rewritten:
  assumes "fix_where sql = pre @ suf" "match_kw_ident ''WHERE'' suf = Some n"
  shows "take n suf = ''WHERE TicketStatus''"
  using assms
proof (induction "match_kw_ident ''WHERE''" "''WHERE TicketStatus''" sql arbitrary: pre
    rule: re_sub.induct)
  case 1
  then show ?case by (simp add: fix_where_def match_kw_ident_def starts_ci_def)
next
  case (2 c cs)
  show ?case
  proof (cases "match_kw_ident ''WHERE'' (c # cs)")
    case None
    then have out: "fix_where (c # cs) = c # fix_where cs" by (simp add: fix_where_def)
    show ?thesis
    proof (cases pre)
      case Nil
      with out "2.prems"(1) have "suf = c # fix_where cs" by simp
      with where_copied[OF None] "2.prems"(2) show ?thesis by simp
    next
      case (Cons p ps)
      with out "2.prems"(1) have "fix_where cs = ps @ suf" by simp
      then show ?thesis using "2.hyps"(1)[OF None] "2.prems"(2) by blast
    qed
  next
    case (Some k)
    define rest where "rest = drop (k - 1) cs"
    have out: "''WHERE TicketStatus'' @ fix_where rest = pre @ suf"
      using Some "2.prems"(1) by (simp add: fix_where_def rest_def)
    from match_kw_ident_Some[OF Some] obtain K sp w r where
      s: "c # cs = K @ sp @ w @ r" and r: "r = [] \<or> \<not> is_word (hd r)"
      and k: "k = length K + length sp + length w" and sp: "sp \<noteq> []"
      by blast
    have "drop k (c # cs) = r" using s k by simp
    moreover have "0 < k" using k sp by simp
    ultimately have rr: "rest = r" by (cases k) (simp_all add: rest_def)
    from out consider us where "pre = ''WHERE TicketStatus'' @ us" "us @ suf = fix_where rest"
      | us where "pre @ us = ''WHERE TicketStatus''" "suf = us @ fix_where rest"
      unfolding append_eq_append_conv2 by metis
    then show ?thesis
    proof cases
      case 1
      then have "fix_where rest = us @ suf" by simp
      then show ?thesis using "2.hyps"(2)[OF Some] "2.prems"(2) unfolding rest_def by blast
    next
      case 2
      show ?thesis
      proof (cases "pre = []")
        case True
        with 2 have sf: "suf = ''WHERE TicketStatus'' @ fix_where rest" by simp
        from fix_where_head[OF r] rr have "fix_where rest = [] \<or> \<not> is_word (hd (fix_where rest))"
          by simp
        from where_rewritten[OF this] sf "2.prems"(2) have "n = 18" by simp
        with sf show ?thesis by simp
      next
        case False
        show ?thesis
        proof (cases "us = []")
          case True
          with 2 have "fix_where rest = [] @ suf" by simp
          then show ?thesis using "2.hyps"(2)[OF Some] "2.prems"(2) unfolding rest_def by blast
        next
          case F2: False
          from False obtain p ps where p: "pre = p # ps" by (cases pre) auto
          with 2(1) have "ps @ us = ''HERE TicketStatus''" by simp
          then have "hd us \<in> set ''HERE TicketStatus''"
            using F2 by (metis Un_iff hd_in_set set_append)
          then have "lower_char (hd us) \<noteq> CHR ''w''" by (rule inner_not_w)
          moreover have "hd suf = hd us" using 2(2) F2 by simp
          ultimately show ?thesis using where_start[OF "2.prems"(2)] by simp
        qed
      qed
    qed
  qed
qed

lemma re_sub_frame:
  assumes "\<And>s n. m s = Some n \<Longrightarrow> 0 < n \<and> n \<le> length s \<and> C (take n s)"
  shows "\<exists>segs tail. s = concat (map (\<lambda>e. fst e @ snd e) segs) @ tail
     \<and> re_sub m R s = concat (map (\<lambda>e. fst e @ R) segs) @ tail
     \<and> (\<forall>e\<in>set segs. C (snd e))"
proof (induction s rule: length_induct)
  case (1 s)
  show ?case
  proof (cases s)
    case Nil
    show ?thesis
      by (rule exI[of _ "[]"], rule exI[of _ "[]"]) (simp add: Nil)
  next
    case (Cons c cs)
    note sc = Cons
    show ?thesis
    proof (cases "m (c # cs)")
      case None
      have "length cs < length s" by (simp add: sc)
      with 1 obtain segs tail where
        s: "cs = concat (map (\<lambda>e. fst e @ snd e) segs) @ tail"
        and r: "re_sub m R cs = concat (map (\<lambda>e. fst e @ R) segs) @ tail"
        and a: "\<forall>e\<in>set segs. C (snd e)" by meson
      have out: "re_sub m R s = c # re_sub m R cs" by (simp add: sc None)
      show ?thesis
      proof (cases segs)
        case Nil
        show ?thesis
        proof (rule exI[of _ "[]"], rule exI[of _ "c # tail"], intro conjI)
          show "s = concat (map (\<lambda>e. fst e @ snd e) []) @ c # tail"
            using s Nil sc by simp
          show "re_sub m R s = concat (map (\<lambda>e. fst e @ R) []) @ c # tail"
            using out r Nil by simp
          show "\<forall>e\<in>set []. C (snd e)" by simp
        qed
      next
        case (Cons e segs0)
        show ?thesis
        proof (rule exI[of _ "(c # fst e, snd e) # segs0"], rule exI[of _ tail], intro conjI)
          show "s = concat (map (\<lambda>e. fst e @ snd e) ((c # fst e, snd e) # segs0)) @ tail"
            using s Cons sc by simp
          show "re_sub m R s = concat (map (\<lambda>e. fst e @ R) ((c # fst e, snd e) # segs0)) @ tail"
            using out r Cons by simp
          show "\<forall>e\<in>set ((c # fst e, snd e) # segs0). C (snd e)"
            using a Cons by simp
        qed
      qed
    next
      case (Some n)
      from assms[OF Some] have n: "0 < n" "n \<le> length (c # cs)" and C: "C (take n (c # cs))"
        by simp_all
      have "length (drop n (c # cs)) < length s" using n by (simp add: sc)
      with 1 obtain segs tail where
        s: "drop n (c # cs) = concat (map (\<lambda>e. fst e @ snd e) segs) @ tail"
        and r: "re_sub m R (drop n (c # cs)) = concat (map (\<lambda>e. fst e @ R) segs) @ tail"
        and a: "\<forall>e\<in>set segs. C (snd e)" by meson
      from n(1) have d: "drop (n - 1) cs = drop n (c # cs)" by (cases n) simp_all
      have "re_sub m R (c # cs) = R @ re_sub m R (drop (n - 1) cs)"
        by (simp add: Some)
      then have out: "re_sub m R s = R @ re_sub m R (drop n (c # cs))"
        unfolding d sc .
      have split: "s = take n (c # cs) @ drop n (c # cs)" by (simp add: sc)
      show ?thesis
      proof (rule exI[of _ "([], take n (c # cs)) # segs"], rule exI[of _ tail], intro conjI)
        show "s = concat (map (\<lambda>e. fst e @ snd e) (([], take n (c # cs)) # segs)) @ tail"
          using split s by simp
        show "re_sub m R s = concat (map (\<lambda>e. fst e @ R) (([], take n (c # cs)) # segs)) @ tail"
          using out r by simp
        show "\<forall>e\<in>set (([], take n (c # cs)) # segs). C (snd e)"
          using a C by simp
      qed
    qed
  qed
qed

lemma where_match_text:
  assumes "match_kw_ident ''WHERE'' s = Some n"
  shows "0 < n \<and> n \<le> length s
     \<and> (\<exists>K sp w. take n s = K @ sp @ w \<and> lower K = ''where''
           \<and> sp \<noteq> [] \<and> (\<forall>c\<in>set sp. is_space c) \<and> w \<noteq> [] \<and> (\<forall>c\<in>set w. is_word c))"
proof -
  from match_kw_ident_Some[OF assms] obtain K sp w rest where
    s: "s = K @ sp @ w @ rest" and K: "lower K = lower ''WHERE''" and sp: "sp \<noteq> []"
    "\<forall>c\<in>set sp. is_space c" and w: "w \<noteq> []" "\<forall>c\<in>set w. is_word c"
    and n: "n = length K + length sp + length w" by blast
  have "lower ''WHERE'' = ''where''" by (simp add: lower_def char_eval)
  with K have K': "lower K = ''where''" by simp
  have "take n s = K @ sp @ w" using s n by simp
  moreover have "0 < n" "n \<le> length s" using s n sp by simp_all
  ultimately show ?thesis using K' sp w by blast
qed

lemma fix_where_frame:
  "\<exists>segs tail. sql = concat (map (\<lambda>e. fst e @ snd e) segs) @ tail
     \<and> fix_where sql = concat (map (\<lambda>e. fst e @ ''WHERE TicketStatus'') segs) @ tail
     \<and> (\<forall>e\<in>set segs. \<exists>K sp w. snd e = K @ sp @ w \<and> lower K = ''where''
           \<and> sp \<noteq> [] \<and> (\<forall>c\<in>set sp. is_space c) \<and> w \<noteq> [] \<and> (\<forall>c\<in>set w. is_word c))"
  unfolding fix_where_def
  by (rule re_sub_frame) (use where_match_text in blast)

text \<open>
  Claim C6, as amended. The substitution has no count limit, so the column step of the
  repair engine rewrites every WHERE clause, not the first only. Its result is the text
  it is given with pieces replaced by \<open>WHERE TicketStatus\<close>, each piece being \<open>WHERE\<close>
  in some letter case, white space and an identifier; all other text is kept as it is.
  And wherever, in the result, \<open>WHERE\<close> is followed by white space and an identifier,
  the clause reads \<open>WHERE TicketStatus\<close>: no WHERE clause keeps another column.
\<close>

theorem fix_where_every_clause:
  "(\<exists>segs tail. sql = concat (map (\<lambda>e. fst e @ snd e) segs) @ tail
     \<and> fix_where sql = concat (map (\<lambda>e. fst e @ ''WHERE TicketStatus'') segs) @ tail
     \<and> (\<forall>e\<in>set segs. \<exists>K sp w. snd e = K @ sp @ w \<and> lower K = ''where''
           \<and> sp \<noteq> [] \<and> (\<forall>c\<in>set sp. is_space c) \<and> w \<noteq> [] \<and> (\<forall>c\<in>set w. is_word c)))
   \<and> (\<forall>pre suf n. fix_where sql = pre @ suf \<and> match_kw_ident ''WHERE'' suf = Some n
           \<longrightarrow> take n suf = ''WHERE TicketStatus'')"
  using fix_where_frame[of sql] where_clauses_rewritten[of sql] by blast

theorem fix_where_every_clause_witness:
  "''WHERE a;WHERE b''
     = concat (map (\<lambda>e. fst e @ snd e) [([], ''WHERE a''), ('';'', ''WHERE b'')]) @ []
   \<and> fix_where ''WHERE a;WHERE b''
     = concat (map (\<lambda>e. fst e @ ''WHERE TicketStatus'') [([], ''WHERE a''), ('';'', ''WHERE b'')]) @ []
   \<and> fix_where ''WHERE a;WHERE b'' = ''WHERE TicketStatus;'' @ ''WHERE TicketStatus''
   \<and> match_kw_ident ''WHERE'' ''WHERE TicketStatus'' = Some 18
   \<and> take 18 ''WHERE TicketStatus'' = ''WHERE TicketStatus''"
proof -
  have h1: "fix_where ''WHERE a;WHERE b'' = ''WHERE TicketStatus;'' @ ''WHERE TicketStatus''"
    by (simp add: eval)
  have h2: "match_kw_ident ''WHERE'' ''WHERE TicketStatus'' = Some 18"
    by (simp add: eval)
  have "take 18 ''WHERE TicketStatus'' = ''WHERE TicketStatus''"
    using conjunct2[OF fix_where_every_clause[of "''WHERE a;WHERE b''"]] h1 h2 by blast
  with h1 h2 show ?thesis by simp
qed

text \<open>
  A validated statement with a second WHERE clause in a subquery: the repair rewrites
  the column of the second clause as well.
\<close>

theorem second_where_counterexample:
  "valid_sql ''SELECT 1 WHERE a=1 OR b IN (SELECT 2 WHERE c=3)''
   \<and> repair_sql ''SELECT 1 WHERE a=1 OR b IN (SELECT 2 WHERE c=3)''
     = ''SELECT 1 WHERE TicketStatus=1 OR b IN (SELECT 2 WHERE TicketStatus=3) LIMIT 50;''"
  by (simp add: eval)

end
